theory Spec2Isabelle
  imports Main "HOL-Library.Sublist" "HOL-Library.AList"
begin

section \<open>Text and JavaScript values\<close>

text \<open>
  Source text is a \<^typ>\<open>string\<close>: a list of code units, restricted to the
  code units 0..255 that \<^typ>\<open>char\<close> has. The values the program moves around are
  strings, the numbers that the counter \<^verbatim>\<open>autoindex_code\<close> produces (naturals), and
  \<^verbatim>\<open>undefined\<close>, which reading an array out of range gives and which a capture
  group that took no part in a match holds.
\<close>

datatype jsval = JUndefined | JStr string | JNum nat

text \<open>\<^verbatim>\<open>a[i]\<close> on an array: \<^verbatim>\<open>undefined\<close> out of range.\<close>

definition at_index :: "jsval list \<Rightarrow> nat \<Rightarrow> jsval" where
  "at_index a i = (if i < length a then a ! i else JUndefined)"

text \<open>Truthiness, as \<^verbatim>\<open>if (x)\<close> and \<^verbatim>\<open>filter(x => x)\<close> test it.\<close>

fun truthy :: "jsval \<Rightarrow> bool" where
  "truthy JUndefined = False"
| "truthy (JStr s) = (s \<noteq> [])"
| "truthy (JNum n) = (n \<noteq> 0)"

text \<open>
  The decimal digits of a number, which is how \<^verbatim>\<open>String\<close> writes the naturals below
  \<^verbatim>\<open>1e21\<close>; the counter of the matches of one text stays far below.
\<close>

definition digit_char :: "nat \<Rightarrow> char" where
  "digit_char d = char_of (of_char (CHR ''0'') + d :: nat)"

function digits_of :: "nat \<Rightarrow> string" where
  "digits_of n = (if n < 10 then [digit_char n] else digits_of (n div 10) @ [digit_char (n mod 10)])"
  by pat_completeness auto
termination
  by (relation "measure id") auto

declare digits_of.simps [simp del]

text \<open>\<^verbatim>\<open>String(x)\<close>, the conversion \<^verbatim>\<open>RegExp.prototype.test\<close> applies to its argument.\<close>

fun ToString :: "jsval \<Rightarrow> string" where
  "ToString JUndefined = ''undefined''"
| "ToString (JStr s) = s"
| "ToString (JNum n) = digits_of n"

section \<open>Regular expressions: a backtracking matcher\<close>

text \<open>
  The patterns of the program are values of \<^verbatim>\<open>regex\<close>; \<^verbatim>\<open>m\<close> is the matcher of
  the ECMAScript specification, written with continuations: alternatives are tried left to
  right, a greedy quantifier tries one more iteration before it tries to go on, a lazy one
  the other way round, and a capture group records the text it matched.
\<close>

text \<open>
  The items of a character class: one character, a range \<^verbatim>\<open>a-b\<close>, and \<^verbatim>\<open>\s\<close>. On
  the code units 0..255, \<^verbatim>\<open>\s\<close> is tab, line feed, vertical tab, form feed, carriage
  return, space and the no-break space, and the line terminators, which \<^verbatim>\<open>.\<close> does not
  match, are line feed and carriage return.
\<close>

datatype citem = One char | Range char char | WhiteSpace

definition is_line_terminator :: "char \<Rightarrow> bool" where
  "is_line_terminator ch = (ch = CHR 0x0A \<or> ch = CHR 0x0D)"

definition is_white_space :: "char \<Rightarrow> bool" where
  "is_white_space ch = (ch = CHR 0x09 \<or> ch = CHR 0x0A \<or> ch = CHR 0x0B \<or> ch = CHR 0x0C
     \<or> ch = CHR 0x0D \<or> ch = CHR 0x20 \<or> ch = CHR 0xA0)"

fun citem_has :: "citem \<Rightarrow> char \<Rightarrow> bool" where
  "citem_has (One a) ch = (ch = a)"
| "citem_has (Range a b) ch = ((of_char a :: nat) \<le> of_char ch \<and> (of_char ch :: nat) \<le> of_char b)"
| "citem_has WhiteSpace ch = is_white_space ch"

definition class_has :: "citem list \<Rightarrow> char \<Rightarrow> bool" where
  "class_has cs ch = list_ex (\<lambda>i. citem_has i ch) cs"

text \<open>
  \<^verbatim>\<open>Lit a\<close> is the character \<^verbatim>\<open>a\<close>, \<^verbatim>\<open>Dot\<close> is \<^verbatim>\<open>.\<close>, \<^verbatim>\<open>Cls\<close> and \<^verbatim>\<open>NCls\<close> are
  \<^verbatim>\<open>[...]\<close> and \<^verbatim>\<open>[^...]\<close>, \<^verbatim>\<open>Bol\<close> and \<^verbatim>\<open>Eol\<close> are \<^verbatim>\<open>^\<close> and \<^verbatim>\<open>$\<close> of a pattern
  without the flag \<^verbatim>\<open>m\<close> (the only pattern of the program with the flag has neither),
  \<^verbatim>\<open>Seq\<close> is juxtaposition, \<^verbatim>\<open>Alt\<close> is \<^verbatim>\<open>|\<close>, \<^verbatim>\<open>Group n\<close> is the n-th pair
  of capturing parentheses (a group \<^verbatim>\<open>(?:...)\<close> leaves no trace), and \<^verbatim>\<open>Star\<close>,
  \<^verbatim>\<open>Plus\<close> and \<^verbatim>\<open>Opt\<close> are \<^verbatim>\<open>*\<close>, \<^verbatim>\<open>+\<close> and \<^verbatim>\<open>?\<close>, greedy with \<^verbatim>\<open>True\<close> and
  lazy (\<^verbatim>\<open>*?\<close>, \<^verbatim>\<open>+?\<close>, \<^verbatim>\<open>??\<close>) with \<^verbatim>\<open>False\<close>.
\<close>

datatype regex =
    Empty
  | Lit char
  | Dot
  | Cls "citem list"
  | NCls "citem list"
  | Bol
  | Eol
  | Seq regex regex
  | Alt regex regex
  | Group nat regex
  | Star bool regex
  | Plus bool regex
  | Opt bool regex

type_synonym captures = "nat \<Rightarrow> string option"

text \<open>The capture groups inside a pattern, and the size that the matcher goes down on.\<close>

fun rgroups :: "regex \<Rightarrow> nat list" where
  "rgroups (Seq a b) = rgroups a @ rgroups b"
| "rgroups (Alt a b) = rgroups a @ rgroups b"
| "rgroups (Group n r) = n # rgroups r"
| "rgroups (Star g r) = rgroups r"
| "rgroups (Plus g r) = rgroups r"
| "rgroups (Opt g r) = rgroups r"
| "rgroups _ = []"

definition reset :: "nat list \<Rightarrow> captures \<Rightarrow> captures" where
  "reset ns c = (\<lambda>n. if n \<in> set ns then None else c n)"

fun rsize :: "regex \<Rightarrow> nat" where
  "rsize (Seq a b) = Suc (rsize a + rsize b)"
| "rsize (Alt a b) = Suc (rsize a + rsize b)"
| "rsize (Group n r) = Suc (rsize r)"
| "rsize (Star g r) = Suc (rsize r)"
| "rsize (Plus g r) = Suc (Suc (rsize r))"
| "rsize (Opt g r) = Suc (rsize r)"
| "rsize _ = 0"

text \<open>
  \<^verbatim>\<open>m inp r rest c k\<close>: match \<^verbatim>\<open>r\<close> at the suffix \<^verbatim>\<open>rest\<close> of the input
  \<^verbatim>\<open>inp\<close>, with the captures \<^verbatim>\<open>c\<close>, and go on with \<^verbatim>\<open>k\<close> on what is left.
  A quantifier resets the captures of the groups inside it before each iteration, and an
  iteration that consumed nothing fails: the specification checks that the end index has
  moved, and here, for the termination of the definition, that the rest got shorter; the
  two checks are the same (\<^verbatim>\<open>iteration_check\<close> below).
\<close>

function m :: "string \<Rightarrow> regex \<Rightarrow> string \<Rightarrow> captures \<Rightarrow> (string \<Rightarrow> captures \<Rightarrow> 'a option) \<Rightarrow> 'a option" where
  "m inp Empty rest c k = k rest c"
| "m inp (Lit a) rest c k = (case rest of [] \<Rightarrow> None | x # xs \<Rightarrow> if x = a then k xs c else None)"
| "m inp Dot rest c k = (case rest of [] \<Rightarrow> None | x # xs \<Rightarrow> if is_line_terminator x then None else k xs c)"
| "m inp (Cls cs) rest c k = (case rest of [] \<Rightarrow> None | x # xs \<Rightarrow> if class_has cs x then k xs c else None)"
| "m inp (NCls cs) rest c k = (case rest of [] \<Rightarrow> None | x # xs \<Rightarrow> if class_has cs x then None else k xs c)"
| "m inp Bol rest c k = (if length rest = length inp then k rest c else None)"
| "m inp Eol rest c k = (if rest = [] then k rest c else None)"
| "m inp (Seq a b) rest c k = m inp a rest c (\<lambda>rest' c'. m inp b rest' c' k)"
| "m inp (Alt a b) rest c k =
     (case m inp a rest c k of Some z \<Rightarrow> Some z | None \<Rightarrow> m inp b rest c k)"
| "m inp (Group n r) rest c k =
     m inp r rest c (\<lambda>rest' c'. k rest' (c'(n \<mapsto> take (length rest - length rest') rest)))"
| "m inp (Star greedy r) rest c k =
     (if greedy
      then (case m inp r rest (reset (rgroups r) c)
                   (\<lambda>rest' c'. if length rest' < length rest then m inp (Star greedy r) rest' c' k else None) of
              Some z \<Rightarrow> Some z
            | None \<Rightarrow> k rest c)
      else (case k rest c of
              Some z \<Rightarrow> Some z
            | None \<Rightarrow> m inp r rest (reset (rgroups r) c)
                   (\<lambda>rest' c'. if length rest' < length rest then m inp (Star greedy r) rest' c' k else None)))"
| "m inp (Plus greedy r) rest c k =
     m inp r rest (reset (rgroups r) c) (\<lambda>rest' c'. m inp (Star greedy r) rest' c' k)"
| "m inp (Opt greedy r) rest c k =
     (if greedy
      then (case m inp r rest (reset (rgroups r) c)
                   (\<lambda>rest' c'. if length rest' < length rest then k rest' c' else None) of
              Some z \<Rightarrow> Some z
            | None \<Rightarrow> k rest c)
      else (case k rest c of
              Some z \<Rightarrow> Some z
            | None \<Rightarrow> m inp r rest (reset (rgroups r) c)
                   (\<lambda>rest' c'. if length rest' < length rest then k rest' c' else None)))"
  by pat_completeness auto
termination
  by (relation "inv_image (less_than <*lex*> less_than) (\<lambda>(inp, r, rest, c, k). (rsize r, length rest))")
     auto

text \<open>\<^verbatim>\<open>forward rest k\<close>: the continuation \<^verbatim>\<open>k\<close>, cut down to the suffixes of \<^verbatim>\<open>rest\<close>.\<close>

definition forward :: "string \<Rightarrow> (string \<Rightarrow> captures \<Rightarrow> 'a option) \<Rightarrow> string \<Rightarrow> captures \<Rightarrow> 'a option" where
  "forward rest k = (\<lambda>rest' c'. if suffix rest' rest then k rest' c' else None)"

lemma forward_forward: "suffix t rest \<Longrightarrow> forward t (forward rest k) = forward t k"
  by (auto simp: forward_def fun_eq_iff intro: suffix_order.trans)

lemma m_forward: "m inp r rest c k = m inp r rest c (forward rest k)"
  using wf_lex_prod[OF wf_less_than wf_less_than]
proof (induction "(rsize r, length rest)" arbitrary: r rest c k rule: wf_induct_rule)
  case less
  have ih_r: "m inp r' rest' c' k' = m inp r' rest' c' (forward rest' k')"
    if "rsize r' < rsize r" for r' rest' c' and k' :: "string \<Rightarrow> captures \<Rightarrow> 'a option"
    using that by (intro less) simp
  have ih_s: "m inp r rest' c' k' = m inp r rest' c' (forward rest' k')"
    if "length rest' < length rest" for rest' c' and k' :: "string \<Rightarrow> captures \<Rightarrow> 'a option"
    using that by (intro less) simp
  text \<open>a continuation only matters on the suffixes of the text\<close>
  have cong_r: "m inp r' rest c' k1 = m inp r' rest c' k2"
    if "rsize r' < rsize r" and "\<And>t ct. suffix t rest \<Longrightarrow> k1 t ct = k2 t ct"
    for r' c' and k1 k2 :: "string \<Rightarrow> captures \<Rightarrow> 'a option"
  proof -
    from that(2) have e: "forward rest k1 = forward rest k2" by (auto simp: forward_def fun_eq_iff)
    have "m inp r' rest c' k1 = m inp r' rest c' (forward rest k1)" by (rule ih_r[OF that(1)])
    also have "\<dots> = m inp r' rest c' (forward rest k2)" by (rule arg_cong[OF e])
    also have "\<dots> = m inp r' rest c' k2" by (rule ih_r[OF that(1), symmetric])
    finally show ?thesis .
  qed
  show ?case
  proof (cases r)
    case Empty
    show ?thesis unfolding Empty by (simp add: forward_def)
  next
    case (Lit a)
    show ?thesis unfolding Lit by (auto simp: forward_def suffix_ConsI split: list.splits)
  next
    case Dot
    show ?thesis unfolding Dot by (auto simp: forward_def suffix_ConsI split: list.splits)
  next
    case (Cls cs)
    show ?thesis unfolding Cls by (auto simp: forward_def suffix_ConsI split: list.splits)
  next
    case (NCls cs)
    show ?thesis unfolding NCls by (auto simp: forward_def suffix_ConsI split: list.splits)
  next
    case Bol
    show ?thesis unfolding Bol by (simp add: forward_def)
  next
    case Eol
    show ?thesis unfolding Eol by (simp add: forward_def)
  next
    case (Seq a b)
    have "m inp a rest c (\<lambda>rest' c'. m inp b rest' c' k)
        = m inp a rest c (\<lambda>rest' c'. m inp b rest' c' (forward rest k))"
    proof (rule cong_r)
      show "rsize a < rsize r" using Seq by simp
      fix t ct assume t: "suffix t rest"
      have "m inp b t ct k = m inp b t ct (forward t k)"
        by (rule ih_r) (simp add: Seq)
      also have "\<dots> = m inp b t ct (forward t (forward rest k))"
        by (rule arg_cong[OF forward_forward[OF t, symmetric]])
      also have "\<dots> = m inp b t ct (forward rest k)"
        by (rule ih_r[symmetric]) (simp add: Seq)
      finally show "m inp b t ct k = m inp b t ct (forward rest k)" .
    qed
    then show ?thesis unfolding Seq by (simp only: m.simps(8))
  next
    case (Alt a b)
    have "m inp a rest c k = m inp a rest c (forward rest k)" by (rule ih_r) (simp add: Alt)
    moreover have "m inp b rest c k = m inp b rest c (forward rest k)" by (rule ih_r) (simp add: Alt)
    ultimately show ?thesis unfolding Alt by (simp only: m.simps(9))
  next
    case (Group n r0)
    have "m inp r0 rest c (\<lambda>rest' c'. k rest' (c'(n \<mapsto> take (length rest - length rest') rest)))
        = m inp r0 rest c (\<lambda>rest' c'. forward rest k rest' (c'(n \<mapsto> take (length rest - length rest') rest)))"
      by (rule cong_r) (simp_all add: Group forward_def)
    then show ?thesis unfolding Group by (simp only: m.simps(10))
  next
    case (Star g r0)
    let ?d = "\<lambda>k rest' c'. if length rest' < length rest then m inp (Star g r0) rest' c' k else None"
    have d: "m inp r0 rest (reset (rgroups r0) c) (?d k) = m inp r0 rest (reset (rgroups r0) c) (?d (forward rest k))"
    proof (rule cong_r)
      show "rsize r0 < rsize r" using Star by simp
      fix t ct assume t: "suffix t rest"
      show "?d k t ct = ?d (forward rest k) t ct"
      proof (cases "length t < length rest")
        case True
        have "m inp r t ct k = m inp r t ct (forward t k)" by (rule ih_s[OF True])
        also have "\<dots> = m inp r t ct (forward t (forward rest k))"
          by (rule arg_cong[OF forward_forward[OF t, symmetric]])
        also have "\<dots> = m inp r t ct (forward rest k)" by (rule ih_s[OF True, symmetric])
        finally have "m inp (Star g r0) t ct k = m inp (Star g r0) t ct (forward rest k)"
          unfolding Star .
        then show ?thesis unfolding if_P[OF True] .
      next
        case False
        show ?thesis unfolding if_not_P[OF False] ..
      qed
    qed
    have k: "forward rest k rest c = k rest c" by (simp add: forward_def)
    have l: "m inp (Star g r0) rest c k =
       (if g then (case m inp r0 rest (reset (rgroups r0) c) (?d k) of Some z \<Rightarrow> Some z | None \<Rightarrow> k rest c)
        else (case k rest c of Some z \<Rightarrow> Some z | None \<Rightarrow> m inp r0 rest (reset (rgroups r0) c) (?d k)))"
      by (rule m.simps(11))
    have r: "m inp (Star g r0) rest c (forward rest k) =
       (if g then (case m inp r0 rest (reset (rgroups r0) c) (?d (forward rest k)) of Some z \<Rightarrow> Some z
                   | None \<Rightarrow> forward rest k rest c)
        else (case forward rest k rest c of Some z \<Rightarrow> Some z
              | None \<Rightarrow> m inp r0 rest (reset (rgroups r0) c) (?d (forward rest k))))"
      by (rule m.simps(11))
    show ?thesis unfolding Star l r d k ..
  next
    case (Plus g r0)
    have "m inp r0 rest (reset (rgroups r0) c) (\<lambda>rest' c'. m inp (Star g r0) rest' c' k)
        = m inp r0 rest (reset (rgroups r0) c) (\<lambda>rest' c'. m inp (Star g r0) rest' c' (forward rest k))"
    proof (rule cong_r)
      show "rsize r0 < rsize r" using Plus by simp
      fix t ct assume t: "suffix t rest"
      have "m inp (Star g r0) t ct k = m inp (Star g r0) t ct (forward t k)"
        by (rule ih_r) (simp add: Plus)
      also have "\<dots> = m inp (Star g r0) t ct (forward t (forward rest k))"
        by (rule arg_cong[OF forward_forward[OF t, symmetric]])
      also have "\<dots> = m inp (Star g r0) t ct (forward rest k)"
        by (rule ih_r[symmetric]) (simp add: Plus)
      finally show "m inp (Star g r0) t ct k = m inp (Star g r0) t ct (forward rest k)" .
    qed
    then show ?thesis unfolding Plus by (simp only: m.simps(12))
  next
    case (Opt g r0)
    let ?d = "\<lambda>k rest' c'. if length rest' < length rest then k rest' c' else None"
    have d: "m inp r0 rest (reset (rgroups r0) c) (?d k) = m inp r0 rest (reset (rgroups r0) c) (?d (forward rest k))"
      by (rule cong_r) (simp_all add: Opt forward_def)
    have k: "forward rest k rest c = k rest c" by (simp add: forward_def)
    have l: "m inp (Opt g r0) rest c k =
       (if g then (case m inp r0 rest (reset (rgroups r0) c) (?d k) of Some z \<Rightarrow> Some z | None \<Rightarrow> k rest c)
        else (case k rest c of Some z \<Rightarrow> Some z | None \<Rightarrow> m inp r0 rest (reset (rgroups r0) c) (?d k)))"
      by (rule m.simps(13))
    have r: "m inp (Opt g r0) rest c (forward rest k) =
       (if g then (case m inp r0 rest (reset (rgroups r0) c) (?d (forward rest k)) of Some z \<Rightarrow> Some z
                   | None \<Rightarrow> forward rest k rest c)
        else (case forward rest k rest c of Some z \<Rightarrow> Some z
              | None \<Rightarrow> m inp r0 rest (reset (rgroups r0) c) (?d (forward rest k))))"
      by (rule m.simps(13))
    show ?thesis unfolding Opt l r d k ..
  qed
qed

text \<open>
  So the iteration check of \<^verbatim>\<open>Star\<close> and \<^verbatim>\<open>Opt\<close> is the check of the ECMAScript
  specification: the continuation of an iteration is only called on a suffix of the text,
  and a suffix that is not shorter is the text itself, where the end index has not moved.
\<close>

lemma iteration_check:
  "m inp r rest c0 (\<lambda>rest' c'. if length rest' < length rest then k rest' c' else None)
     = m inp r rest c0 (\<lambda>rest' c'. if rest' = rest then None else k rest' c')"
proof -
  have "forward rest (\<lambda>rest' c'. if length rest' < length rest then k rest' c' else None)
      = forward rest (\<lambda>rest' c'. if rest' = rest then None else k rest' c')"
    by (auto simp: forward_def fun_eq_iff suffix_def)
  then have "m inp r rest c0 (forward rest (\<lambda>rest' c'. if length rest' < length rest then k rest' c' else None))
      = m inp r rest c0 (forward rest (\<lambda>rest' c'. if rest' = rest then None else k rest' c'))"
    by (rule arg_cong)
  then show ?thesis
    unfolding m_forward[of inp r rest c0 "\<lambda>rest' c'. if length rest' < length rest then k rest' c' else None", symmetric]
      m_forward[of inp r rest c0 "\<lambda>rest' c'. if rest' = rest then None else k rest' c'", symmetric] .
qed

text \<open>
  \<^verbatim>\<open>re.exec(inp)\<close> with \<^verbatim>\<open>lastIndex\<close> at the start of \<^verbatim>\<open>rest\<close>: the first
  position from there on at which the pattern matches. The result keeps the matched text
  (\<^verbatim>\<open>m[0]\<close>), the captures, and the input from the end of the match on, which is
  where a pattern with the flag \<^verbatim>\<open>g\<close> leaves \<^verbatim>\<open>lastIndex\<close>.
\<close>

record rmatch =
  whole :: string
  caps :: captures
  after :: string

fun exec :: "regex \<Rightarrow> string \<Rightarrow> string \<Rightarrow> rmatch option" where
  "exec re inp [] =
     (case m inp re [] (\<lambda>n. None) (\<lambda>rest' c. Some (rest', c)) of
        Some (rest', c) \<Rightarrow> Some \<lparr>whole = [], caps = c, after = rest'\<rparr>
      | None \<Rightarrow> None)"
| "exec re inp (x # xs) =
     (case m inp re (x # xs) (\<lambda>n. None) (\<lambda>rest' c. Some (rest', c)) of
        Some (rest', c) \<Rightarrow>
          Some \<lparr>whole = take (length (x # xs) - length rest') (x # xs), caps = c, after = rest'\<rparr>
      | None \<Rightarrow> exec re inp xs)"

text \<open>\<^verbatim>\<open>re.test(s)\<close> on a pattern just built: \<^verbatim>\<open>lastIndex\<close> is 0.\<close>

definition regex_test :: "regex \<Rightarrow> string \<Rightarrow> bool" where
  "regex_test re s = (exec re s s \<noteq> None)"

text \<open>
  \<^verbatim>\<open>m[n]\<close> for a group \<^verbatim>\<open>n\<close>, and the array \<^verbatim>\<open>m.slice(1)\<close> of a match: the
  captures 1 to n, \<^verbatim>\<open>undefined\<close> where a group did not take part.
\<close>

definition capture :: "rmatch \<Rightarrow> nat \<Rightarrow> jsval" where
  "capture mt n = (case caps mt n of None \<Rightarrow> JUndefined | Some s \<Rightarrow> JStr s)"

definition slice1 :: "regex \<Rightarrow> rmatch \<Rightarrow> jsval list" where
  "slice1 re mt = map (capture mt) [1..<Suc (length (rgroups re))]"

text \<open>Patterns written one after the other, and a literal text.\<close>

fun seqs :: "regex list \<Rightarrow> regex" where
  "seqs [] = Empty"
| "seqs [r] = r"
| "seqs (r # rs) = Seq r (seqs rs)"

definition lits :: "string \<Rightarrow> regex" where
  "lits s = seqs (map Lit s)"

section \<open>parseEnumDeclaration\<close>

text \<open>\<^verbatim>\<open>/ enum ([^\s]+).*?((?:\n.*?)*?);/m\<close>\<close>

definition re_whole_enum :: regex where
  "re_whole_enum = seqs
     [lits '' enum '',
      Group 1 (Plus True (NCls [WhiteSpace])),
      Star False Dot,
      Group 2 (Star False (Seq (Lit (CHR 0x0A)) (Star False Dot))),
      Lit (CHR '';'')]"

text \<open>\<^verbatim>\<open>([A-Z_][A-Z0-9_]*)\<close>, as group \<^verbatim>\<open>g\<close>\<close>

definition re_key :: "nat \<Rightarrow> regex" where
  "re_key g = Group g (Seq (Cls [Range (CHR ''A'') (CHR ''Z''), One (CHR ''_'')])
     (Star True (Cls [Range (CHR ''A'') (CHR ''Z''), Range (CHR ''0'') (CHR ''9''), One (CHR ''_'')])))"

text \<open>
  \<^verbatim>\<open>(?:(true|false|[0-9]+(?:\.[0-9])?)|(?:'(.*?)'|"(.*?)"))\<close>, its three groups numbered
  \<^verbatim>\<open>g\<close>, \<^verbatim>\<open>g + 1\<close>, \<^verbatim>\<open>g + 2\<close>
\<close>

definition re_literal :: "nat \<Rightarrow> regex" where
  "re_literal g = Alt
     (Group g (Alt (lits ''true'') (Alt (lits ''false'')
        (Seq (Plus True (Cls [Range (CHR ''0'') (CHR ''9'')]))
             (Opt True (Seq (Lit (CHR ''.'')) (Cls [Range (CHR ''0'') (CHR ''9'')])))))))
     (Alt (seqs [Lit (CHR 0x27), Group (g + 1) (Star False Dot), Lit (CHR 0x27)])
          (seqs [Lit (CHR 0x22), Group (g + 2) (Star False Dot), Lit (CHR 0x22)]))"

text \<open>\<^verbatim>\<open>\s*,\s*\<close>\<close>

definition re_comma :: regex where
  "re_comma = seqs [Star True (Cls [WhiteSpace]), Lit (CHR '',''), Star True (Cls [WhiteSpace])]"

definition re_code :: "nat \<Rightarrow> regex" where
  "re_code g = re_literal g"

text \<open>\<^verbatim>\<open>(?:${re_comma}${re_literal})\<close>\<close>

definition re_label :: "nat \<Rightarrow> regex" where
  "re_label g = Seq re_comma (re_literal g)"

text \<open>\<^verbatim>\<open>${re_key}\s*\(.*\)\<close>\<close>

definition re_test_enum_with_paren :: regex where
  "re_test_enum_with_paren = seqs
     [re_key 1, Star True (Cls [WhiteSpace]), Lit (CHR ''(''), Star True Dot, Lit (CHR '')'')]"

text \<open>
  \<^verbatim>\<open>${re_key}\s*\(\s*${re_code}${re_label}?${re_label}?${re_label}*\s*\)\<close>. The groups are
  numbered by their opening parentheses: 1 is the key, 2 to 4 are the groups of the code,
  5 to 7 and 8 to 10 those of the two optional labels, 11 to 13 those of the repeated label.
\<close>

definition re_enum_with_paren :: regex where
  "re_enum_with_paren = seqs
     [re_key 1, Star True (Cls [WhiteSpace]), Lit (CHR ''(''), Star True (Cls [WhiteSpace]),
      re_code 2, Opt True (re_label 5), Opt True (re_label 8), Star True (re_label 11),
      Star True (Cls [WhiteSpace]), Lit (CHR '')'')]"

definition re_enum_without_paren :: regex where
  "re_enum_without_paren = re_key 1"

text \<open>\<^verbatim>\<open>re_enum\<close>, the pattern of the loop, by the mode.\<close>

definition re_enum :: "bool \<Rightarrow> regex" where
  "re_enum is_autoindex_code =
     (if is_autoindex_code then re_enum_without_paren else re_enum_with_paren)"

subsection \<open>What a successful match says about the text\<close>

text \<open>
  \<^verbatim>\<open>rm inp r s t\<close>: the pattern \<^verbatim>\<open>r\<close> can consume the text between the suffixes
  \<^verbatim>\<open>s\<close> and \<^verbatim>\<open>t\<close> of the input. The matcher only ever succeeds through such a
  step (\<^verbatim>\<open>m_sound\<close> below); this is what the termination of the loop of
  \<^verbatim>\<open>parseEnumDeclaration\<close> and the claims on texts without a declaration rest on.
\<close>

inductive rm :: "string \<Rightarrow> regex \<Rightarrow> string \<Rightarrow> string \<Rightarrow> bool" for inp :: string where
  rm_Empty: "rm inp Empty s s"
| rm_Lit: "rm inp (Lit a) (a # s) s"
| rm_Dot: "\<not> is_line_terminator x \<Longrightarrow> rm inp Dot (x # s) s"
| rm_Cls: "class_has cs x \<Longrightarrow> rm inp (Cls cs) (x # s) s"
| rm_NCls: "\<not> class_has cs x \<Longrightarrow> rm inp (NCls cs) (x # s) s"
| rm_Bol: "length s = length inp \<Longrightarrow> rm inp Bol s s"
| rm_Eol: "rm inp Eol [] []"
| rm_Seq: "rm inp a s t \<Longrightarrow> rm inp b t u \<Longrightarrow> rm inp (Seq a b) s u"
| rm_AltL: "rm inp a s t \<Longrightarrow> rm inp (Alt a b) s t"
| rm_AltR: "rm inp b s t \<Longrightarrow> rm inp (Alt a b) s t"
| rm_Group: "rm inp r s t \<Longrightarrow> rm inp (Group n r) s t"
| rm_Star0: "rm inp (Star g r) s s"
| rm_StarS: "rm inp r s t \<Longrightarrow> rm inp (Star g r) t u \<Longrightarrow> rm inp (Star g r) s u"
| rm_Plus: "rm inp r s t \<Longrightarrow> rm inp (Star g r) t u \<Longrightarrow> rm inp (Plus g r) s u"
| rm_Opt0: "rm inp (Opt g r) s s"
| rm_OptS: "rm inp r s t \<Longrightarrow> rm inp (Opt g r) s t"

inductive_cases rm_EmptyE: "rm inp Empty s t"
inductive_cases rm_LitE: "rm inp (Lit a) s t"
inductive_cases rm_DotE: "rm inp Dot s t"
inductive_cases rm_ClsE: "rm inp (Cls cs) s t"
inductive_cases rm_NClsE: "rm inp (NCls cs) s t"
inductive_cases rm_BolE: "rm inp Bol s t"
inductive_cases rm_EolE: "rm inp Eol s t"
inductive_cases rm_SeqE: "rm inp (Seq a b) s t"
inductive_cases rm_AltE: "rm inp (Alt a b) s t"
inductive_cases rm_GroupE: "rm inp (Group n r) s t"
inductive_cases rm_PlusE: "rm inp (Plus g r) s t"
inductive_cases rm_OptE: "rm inp (Opt g r) s t"

definition same_outside :: "nat list \<Rightarrow> captures \<Rightarrow> captures \<Rightarrow> bool" where
  "same_outside ns c c' = (\<forall>n. n \<notin> set ns \<longrightarrow> c' n = c n)"

lemma same_outside_refl: "same_outside ns c c"
  by (simp add: same_outside_def)

lemma same_outside_trans:
  "same_outside ns c c' \<Longrightarrow> same_outside ns' c' c'' \<Longrightarrow> set ns \<subseteq> set ms \<Longrightarrow> set ns' \<subseteq> set ms
     \<Longrightarrow> same_outside ms c c''"
  unfolding same_outside_def by (metis subsetD)

lemma same_outside_reset: "same_outside ns c (reset ns c)"
  by (simp add: same_outside_def reset_def)

lemma same_outside_upd: "same_outside ns c c' \<Longrightarrow> same_outside (n # ns) c (c'(n \<mapsto> v))"
  by (simp add: same_outside_def)

lemma m_sound_caps:
  "m inp r rest c k = Some z \<Longrightarrow>
     \<exists>rest' c'. rm inp r rest rest' \<and> k rest' c' = Some z \<and> same_outside (rgroups r) c c'"
proof (induction inp r rest c k arbitrary: z rule: m.induct)
  case (1 inp rest c k)
  then show ?case by (auto intro: rm.intros same_outside_refl)
next
  case (2 inp a rest c k)
  then show ?case by (auto split: list.splits if_splits intro: rm.intros same_outside_refl)
next
  case (3 inp rest c k)
  then show ?case by (auto split: list.splits if_splits intro: rm.intros same_outside_refl)
next
  case (4 inp cs rest c k)
  then show ?case by (auto split: list.splits if_splits intro: rm.intros same_outside_refl)
next
  case (5 inp cs rest c k)
  then show ?case by (auto split: list.splits if_splits intro: rm.intros same_outside_refl)
next
  case (6 inp rest c k)
  then show ?case by (auto split: if_splits intro: rm.intros same_outside_refl)
next
  case (7 inp rest c k)
  then show ?case by (auto split: if_splits intro: rm.intros same_outside_refl)
next
  case (8 inp a b rest c k)
  from 8(3) have "m inp a rest c (\<lambda>rest' c'. m inp b rest' c' k) = Some z" by simp
  from 8(2)[OF this] obtain t ct where a: "rm inp a rest t" and b: "m inp b t ct k = Some z"
    and sa: "same_outside (rgroups a) c ct"
    by blast
  from 8(1)[OF b] obtain u cu where u: "rm inp b t u" "k u cu = Some z"
    and sb: "same_outside (rgroups b) ct cu" by blast
  from sa sb have "same_outside (rgroups (Seq a b)) c cu"
    by (rule same_outside_trans) auto
  with a u show ?case by (blast intro: rm.intros)
next
  case (9 inp a b rest c k)
  have eq: "m inp (Alt a b) rest c k =
     (case m inp a rest c k of Some z \<Rightarrow> Some z | None \<Rightarrow> m inp b rest c k)"
    by simp
  note X = 9(3)[unfolded eq]
  show ?case
  proof (cases "m inp a rest c k")
    case None
    from X have "m inp b rest c k = Some z" unfolding None by simp
    from 9(2)[OF None this] obtain t ct where "rm inp b rest t" "k t ct = Some z"
      and s: "same_outside (rgroups b) c ct" by blast
    moreover from s same_outside_refl have "same_outside (rgroups (Alt a b)) c ct"
      by (rule same_outside_trans) auto
    ultimately show ?thesis by (blast intro: rm.intros)
  next
    case (Some y)
    from X have "m inp a rest c k = Some z" unfolding Some by simp
    from 9(1)[OF this] obtain t ct where "rm inp a rest t" "k t ct = Some z"
      and s: "same_outside (rgroups a) c ct" by blast
    moreover from s same_outside_refl have "same_outside (rgroups (Alt a b)) c ct"
      by (rule same_outside_trans) auto
    ultimately show ?thesis by (blast intro: rm.intros)
  qed
next
  case (10 inp n r rest c k)
  from 10(2) have "m inp r rest c
     (\<lambda>rest' c'. k rest' (c'(n \<mapsto> take (length rest - length rest') rest))) = Some z"
    by simp
  from 10(1)[OF this] obtain t ct where t: "rm inp r rest t"
    and k: "k t (ct(n \<mapsto> take (length rest - length t) rest)) = Some z"
    and s: "same_outside (rgroups r) c ct" by blast
  from s have "same_outside (rgroups (Group n r)) c (ct(n \<mapsto> take (length rest - length t) rest))"
    by (simp add: same_outside_upd)
  with t k show ?case by (blast intro: rm.intros)
next
  case (11 inp greedy r rest c k)
  let ?d = "\<lambda>rest' c'. if length rest' < length rest then m inp (Star greedy r) rest' c' k else None"
  have step: "\<exists>rest' c'. rm inp (Star greedy r) rest rest' \<and> k rest' c' = Some z
        \<and> same_outside (rgroups (Star greedy r)) c c'"
    if h: "m inp r rest (reset (rgroups r) c) ?d = Some z"
      and ih1: "\<And>z. m inp r rest (reset (rgroups r) c) ?d = Some z \<Longrightarrow>
                 \<exists>rest' c'. rm inp r rest rest' \<and> ?d rest' c' = Some z
                   \<and> same_outside (rgroups r) (reset (rgroups r) c) c'"
      and ih2: "\<And>x y z. length x < length rest \<Longrightarrow> m inp (Star greedy r) x y k = Some z \<Longrightarrow>
                 \<exists>rest' c'. rm inp (Star greedy r) x rest' \<and> k rest' c' = Some z
                   \<and> same_outside (rgroups (Star greedy r)) y c'"
  proof -
    from ih1[OF h] obtain t ct where a: "rm inp r rest t" and b: "?d t ct = Some z"
      and s1: "same_outside (rgroups r) (reset (rgroups r) c) ct" by blast
    from b have lt: "length t < length rest" and c: "m inp (Star greedy r) t ct k = Some z"
      by (auto split: if_splits)
    from ih2[OF lt c] obtain u cu where u: "rm inp (Star greedy r) t u" "k u cu = Some z"
      and s2: "same_outside (rgroups (Star greedy r)) ct cu" by blast
    from same_outside_reset s1 have "same_outside (rgroups r) c ct"
      by (rule same_outside_trans) auto
    from this s2 have "same_outside (rgroups (Star greedy r)) c cu"
      by (rule same_outside_trans) auto
    with a u show ?thesis by (blast intro: rm.intros)
  qed
  have eq: "m inp (Star greedy r) rest c k =
     (if greedy
      then (case m inp r rest (reset (rgroups r) c) ?d of Some z \<Rightarrow> Some z | None \<Rightarrow> k rest c)
      else (case k rest c of Some z \<Rightarrow> Some z | None \<Rightarrow> m inp r rest (reset (rgroups r) c) ?d))"
    by simp
  note X = 11(5)[unfolded eq]
  show ?case
  proof (cases greedy)
    case True
    note Y = X[unfolded if_P[OF True]]
    show ?thesis
    proof (cases "m inp r rest (reset (rgroups r) c) ?d")
      case None
      from Y have "k rest c = Some z" unfolding None by simp
      then show ?thesis by (blast intro: rm.intros same_outside_refl)
    next
      case (Some y)
      from Y have h: "m inp r rest (reset (rgroups r) c) ?d = Some z" unfolding Some by simp
      show ?thesis
        by (rule step[OF h]) (use 11(1,2) True in blast)+
    qed
  next
    case False
    note Y = X[unfolded if_not_P[OF False]]
    show ?thesis
    proof (cases "k rest c")
      case None
      from Y have h: "m inp r rest (reset (rgroups r) c) ?d = Some z" unfolding None by simp
      show ?thesis
        by (rule step[OF h]) (use 11(3,4) False None in blast)+
    next
      case (Some y)
      from Y have "k rest c = Some z" unfolding Some by simp
      then show ?thesis by (blast intro: rm.intros same_outside_refl)
    qed
  qed
next
  case (12 inp greedy r rest c k)
  from 12(3) have "m inp r rest (reset (rgroups r) c) (\<lambda>rest' c'. m inp (Star greedy r) rest' c' k) = Some z"
    by simp
  from 12(2)[OF this] obtain t ct where a: "rm inp r rest t" and b: "m inp (Star greedy r) t ct k = Some z"
    and s1: "same_outside (rgroups r) (reset (rgroups r) c) ct"
    by blast
  from 12(1)[OF b] obtain u cu where u: "rm inp (Star greedy r) t u" "k u cu = Some z"
    and s2: "same_outside (rgroups (Star greedy r)) ct cu" by blast
  from same_outside_reset s1 have "same_outside (rgroups r) c ct"
    by (rule same_outside_trans) auto
  from this s2 have "same_outside (rgroups (Plus greedy r)) c cu"
    by (rule same_outside_trans) auto
  with a u show ?case by (blast intro: rm.intros)
next
  case (13 inp greedy r rest c k)
  let ?d = "\<lambda>rest' c'. if length rest' < length rest then k rest' c' else None"
  have step: "\<exists>rest' c'. rm inp (Opt greedy r) rest rest' \<and> k rest' c' = Some z
       \<and> same_outside (rgroups (Opt greedy r)) c c'"
    if h: "m inp r rest (reset (rgroups r) c) ?d = Some z"
      and ih1: "\<And>z. m inp r rest (reset (rgroups r) c) ?d = Some z \<Longrightarrow>
                 \<exists>rest' c'. rm inp r rest rest' \<and> ?d rest' c' = Some z
                   \<and> same_outside (rgroups r) (reset (rgroups r) c) c'"
  proof -
    from ih1[OF h] obtain t ct where a: "rm inp r rest t" and b: "?d t ct = Some z"
      and s1: "same_outside (rgroups r) (reset (rgroups r) c) ct" by blast
    from b have k: "k t ct = Some z" by (auto split: if_splits)
    from same_outside_reset s1 have "same_outside (rgroups (Opt greedy r)) c ct"
      by (rule same_outside_trans) auto
    with a k show ?thesis by (blast intro: rm.intros)
  qed
  have eq: "m inp (Opt greedy r) rest c k =
     (if greedy
      then (case m inp r rest (reset (rgroups r) c) ?d of Some z \<Rightarrow> Some z | None \<Rightarrow> k rest c)
      else (case k rest c of Some z \<Rightarrow> Some z | None \<Rightarrow> m inp r rest (reset (rgroups r) c) ?d))"
    by simp
  note X = 13(3)[unfolded eq]
  show ?case
  proof (cases greedy)
    case True
    note Y = X[unfolded if_P[OF True]]
    show ?thesis
    proof (cases "m inp r rest (reset (rgroups r) c) ?d")
      case None
      from Y have "k rest c = Some z" unfolding None by simp
      then show ?thesis by (blast intro: rm.intros same_outside_refl)
    next
      case (Some y)
      from Y have h: "m inp r rest (reset (rgroups r) c) ?d = Some z" unfolding Some by simp
      show ?thesis
        by (rule step[OF h]) (use 13(1) True in blast)+
    qed
  next
    case False
    note Y = X[unfolded if_not_P[OF False]]
    show ?thesis
    proof (cases "k rest c")
      case None
      from Y have h: "m inp r rest (reset (rgroups r) c) ?d = Some z" unfolding None by simp
      show ?thesis
        by (rule step[OF h]) (use 13(2) False None in blast)+
    next
      case (Some y)
      from Y have "k rest c = Some z" unfolding Some by simp
      then show ?thesis by (blast intro: rm.intros same_outside_refl)
    qed
  qed
qed

lemma m_sound:
  "m inp r rest c k = Some z \<Longrightarrow> \<exists>rest' c'. rm inp r rest rest' \<and> k rest' c' = Some z"
  by (drule m_sound_caps) blast

lemma rm_suffix: "rm inp r s t \<Longrightarrow> suffix t s"
  by (induction rule: rm.induct) (auto intro: suffix_ConsI suffix_order.trans)

lemma suffix_take_length: "suffix t s \<Longrightarrow> take (length s - length t) s @ t = s"
  by (auto simp: suffix_def)

lemma exec_sound:
  "exec re inp rest = Some mt \<Longrightarrow>
     \<exists>pre. rest = pre @ whole mt @ after mt \<and> rm inp re (whole mt @ after mt) (after mt)"
proof (induction rest)
  case Nil
  then obtain rest' c where h: "m inp re [] (\<lambda>n. None) (\<lambda>rest' c. Some (rest', c)) = Some (rest', c)"
    and mt: "mt = \<lparr>whole = [], caps = c, after = rest'\<rparr>"
    by (auto split: option.splits prod.splits)
  from m_sound[OF h] have r: "rm inp re [] rest'" by auto
  from rm_suffix[OF r] have "rest' = []" by simp
  with r mt show ?case by simp
next
  case (Cons x xs)
  show ?case
  proof (cases "m inp re (x # xs) (\<lambda>n. None) (\<lambda>rest' c. Some (rest', c))")
    case None
    with Cons.prems have "exec re inp xs = Some mt" by simp
    from Cons.IH[OF this] obtain pre where "xs = pre @ whole mt @ after mt"
      and r: "rm inp re (whole mt @ after mt) (after mt)" by blast
    then have "x # xs = (x # pre) @ whole mt @ after mt" by simp
    with r show ?thesis by blast
  next
    case (Some z)
    obtain rest' c where z: "z = (rest', c)" by (cases z)
    from Some z Cons.prems
    have mt: "mt = \<lparr>whole = take (length (x # xs) - length rest') (x # xs), caps = c, after = rest'\<rparr>"
      by simp
    from m_sound[OF Some[unfolded z]] have r: "rm inp re (x # xs) rest'" by auto
    from suffix_take_length[OF rm_suffix[OF r]] mt
    have e: "whole mt @ after mt = x # xs" by simp
    with r mt have "rm inp re (whole mt @ after mt) (after mt)" by simp
    with e show ?thesis by (metis append_Nil)
  qed
qed

lemma rm_re_key_shorter:
  assumes "rm inp (re_key g) s t"
  shows "length t < length s"
proof -
  from assms obtain u where a: "rm inp (Cls [Range (CHR ''A'') (CHR ''Z''), One (CHR ''_'')]) s u"
    and b: "rm inp (Star True (Cls [Range (CHR ''A'') (CHR ''Z''), Range (CHR ''0'') (CHR ''9''), One (CHR ''_'')])) u t"
    unfolding re_key_def by (auto elim!: rm_GroupE rm_SeqE)
  from a obtain x where "s = x # u" by (auto elim: rm_ClsE)
  moreover from rm_suffix[OF b] have "length t \<le> length u" by (rule suffix_length_le)
  ultimately show ?thesis by simp
qed

lemma rm_seqs_Cons: "rs \<noteq> [] \<Longrightarrow> rm inp (seqs (r # rs)) s u \<Longrightarrow> \<exists>t. rm inp r s t \<and> rm inp (seqs rs) t u"
  by (cases rs) (auto elim: rm_SeqE)

lemma rm_re_enum_shorter: "rm inp (re_enum b) s t \<Longrightarrow> length t < length s"
proof (cases b)
  case True
  assume "rm inp (re_enum b) s t"
  with True show ?thesis by (simp add: re_enum_def re_enum_without_paren_def rm_re_key_shorter)
next
  case False
  assume "rm inp (re_enum b) s t"
  with False have "rm inp re_enum_with_paren s t" by (simp add: re_enum_def)
  then obtain u where "rm inp (re_key 1) s u" and "rm inp (seqs [Star True (Cls [WhiteSpace]), Lit (CHR ''(''), Star True (Cls [WhiteSpace]),
      re_code 2, Opt True (re_label 5), Opt True (re_label 8), Star True (re_label 11),
      Star True (Cls [WhiteSpace]), Lit (CHR '')'')]) u t"
    unfolding re_enum_with_paren_def using rm_seqs_Cons by blast
  then show ?thesis
    using rm_re_key_shorter rm_suffix suffix_length_le by fastforce
qed

lemma exec_re_enum_shorter:
  assumes "exec (re_enum b) inp rest = Some mt"
  shows "length (after mt) < length rest"
proof -
  from exec_sound[OF assms] obtain pre where p: "rest = pre @ whole mt @ after mt"
    and r: "rm inp (re_enum b) (whole mt @ after mt) (after mt)" by blast
  from rm_re_enum_shorter[OF r] p show ?thesis by simp
qed

text \<open>
  The loop \<^verbatim>\<open>while ((m = re_enum.exec(enum_value_section)))\<close>: \<^verbatim>\<open>rest\<close> is the
  section from \<^verbatim>\<open>lastIndex\<close> on. Both patterns consume at least one character, so
  \<^verbatim>\<open>lastIndex\<close> moves at every match and the loop ends.
\<close>

function parse_loop :: "bool \<Rightarrow> string \<Rightarrow> string \<Rightarrow> nat \<Rightarrow> jsval list list \<Rightarrow> jsval list list" where
  "parse_loop is_autoindex_code enum_value_section rest autoindex_code matched =
     (case exec (re_enum is_autoindex_code) enum_value_section rest of
        None \<Rightarrow> matched
      | Some mt \<Rightarrow>
          if is_autoindex_code
          then parse_loop is_autoindex_code enum_value_section (after mt) (autoindex_code + 1)
                 (matched @ [[capture mt 1, JNum autoindex_code]])
          else parse_loop is_autoindex_code enum_value_section (after mt) autoindex_code
                 (matched @ [filter truthy (slice1 (re_enum is_autoindex_code) mt)]))"
  by pat_completeness auto
termination
  by (relation "measure (\<lambda>(b, sec, rest, n, acc). length rest)") (auto simp: exec_re_enum_shorter)


record parsed_enum =
  name :: jsval
  "values" :: "jsval list list"

text \<open>
  \<^verbatim>\<open>parseEnumDeclaration\<close>: \<^verbatim>\<open>None\<close> is \<^verbatim>\<open>null\<close>. The value section is
  \<^verbatim>\<open>whole_matched[2]\<close>, which \<^verbatim>\<open>test\<close> and \<^verbatim>\<open>exec\<close> read as a string.
\<close>

definition parseEnumDeclaration :: "string \<Rightarrow> parsed_enum option" where
  "parseEnumDeclaration source_code =
     (case exec re_whole_enum source_code source_code of
        None \<Rightarrow> None
      | Some whole_matched \<Rightarrow>
          let enum_name = capture whole_matched 1;
              enum_value_section = ToString (capture whole_matched 2);
              is_autoindex_code = \<not> regex_test re_test_enum_with_paren enum_value_section
          in Some \<lparr>name = enum_name,
                   values = parse_loop is_autoindex_code enum_value_section enum_value_section 0 []\<rparr>)"

section \<open>guessSchema\<close>

text \<open>\<^verbatim>\<open>/^[0-9]+$/\<close>\<close>

definition re_all_digits :: regex where
  "re_all_digits = seqs [Bol, Plus True (Cls [Range (CHR ''0'') (CHR ''9'')]), Eol]"

text \<open>\<^verbatim>\<open>parseInt(str, 10)\<close> on a string of decimal digits, the only strings it is called on.\<close>

definition parseInt10 :: "string \<Rightarrow> nat" where
  "parseInt10 str = foldl (\<lambda>acc ch. acc * 10 + (of_char ch - of_char (CHR ''0''))) 0 str"

definition parseIntIfParsable :: "jsval \<Rightarrow> jsval" where
  "parseIntIfParsable str =
     (if regex_test re_all_digits (ToString str) then JNum (parseInt10 (ToString str)) else str)"

text \<open>
  \<^verbatim>\<open>transpose\<close>: \<^verbatim>\<open>Math.max\<close> of no lengths is \<^verbatim>\<open>-Infinity\<close>, and the loop over the
  columns does not run, as for 0. A row without position \<^verbatim>\<open>c\<close> gives \<^verbatim>\<open>undefined\<close>.
\<close>

definition transpose_rows :: "jsval list list \<Rightarrow> jsval list list" where
  "transpose_rows a =
     (let cols = foldr max (map length a) 0
      in map (\<lambda>c. map (\<lambda>r. at_index r c) a) [0..<cols])"

definition isBoolean :: "jsval \<Rightarrow> bool" where
  "isBoolean x = (x = JStr ''true'' \<or> x = JStr ''false'')"

fun isNumber :: "jsval \<Rightarrow> bool" where
  "isNumber (JNum n) = True"
| "isNumber _ = False"

text \<open>An array is truthy, so \<^verbatim>\<open>.filter(x => x)\<close> keeps every column.\<close>

definition guessSchema :: "jsval list list \<Rightarrow> string list" where
  "guessSchema rows =
     map (\<lambda>x. if list_all (\<lambda>y. isBoolean y) x then ''boolean''
              else if list_all (\<lambda>y. isNumber (parseIntIfParsable y)) x then ''integer''
              else ''string'')
         (filter (\<lambda>x. True) (transpose_rows rows))"

section \<open>camelToSnakeCase\<close>

definition is_upper :: "char \<Rightarrow> bool" where
  "is_upper ch = citem_has (Range (CHR ''A'') (CHR ''Z'')) ch"

text \<open>
  \<^verbatim>\<open>str.split(/(?=[A-Z])/)\<close>: \<^verbatim>\<open>seg\<close> is the text since the last cut. The text is cut
  before every capital letter, except where the segment would be empty.
\<close>

fun split_upper :: "string \<Rightarrow> string \<Rightarrow> string list" where
  "split_upper seg [] = [seg]"
| "split_upper seg (x # xs) =
     (if is_upper x \<and> seg \<noteq> [] then seg # split_upper [x] xs else split_upper (seg @ [x]) xs)"

fun join :: "string \<Rightarrow> string list \<Rightarrow> string" where
  "join sep [] = []"
| "join sep [x] = x"
| "join sep (x # xs) = x @ sep @ join sep xs"

text \<open>\<^verbatim>\<open>toLowerCase\<close> on the code units 0..255: A to Z, and the capital letters of Latin-1.\<close>

definition to_lower :: "char \<Rightarrow> char" where
  "to_lower ch =
     (let n = (of_char ch :: nat)
      in if (65 \<le> n \<and> n \<le> 90) \<or> (192 \<le> n \<and> n \<le> 222 \<and> n \<noteq> 215) then char_of (n + 32) else ch)"

definition camelToSnakeCase :: "string \<Rightarrow> string" where
  "camelToSnakeCase str = map to_lower (join ''_'' (split_upper [] str))"

section \<open>Schema fields and rows\<close>

text \<open>An object is the list of its properties, in the order they were set.\<close>

type_synonym jsobj = "(string \<times> jsval) list"

definition enumToBigQuerySchemaFields :: "jsval list list \<Rightarrow> jsval list \<Rightarrow> jsobj list" where
  "enumToBigQuerySchemaFields enum_values columns =
     (let field_types = take (length columns) (guessSchema enum_values)
      in map (\<lambda>(t, i). [(''name'', at_index columns i), (''type'', JStr t)])
             (zip field_types [0..<length field_types]))"

definition enumToBigQueryRows :: "jsval list list \<Rightarrow> jsval list \<Rightarrow> jsobj list" where
  "enumToBigQueryRows enum_values columns =
     map (\<lambda>vs. fold (\<lambda>i row. if truthy (at_index vs i)
                            then AList.update (ToString (at_index columns i)) (at_index vs i) row
                            else row)
                    [0..<length columns] [])
         enum_values"

section \<open>The push handler, from the file contents to the loads\<close>

text \<open>
  What \<^verbatim>\<open>exports.github\<close> does with the contents of the files: parse each, drop what
  did not parse or has no value, and for each declaration left make the arguments
  \<^verbatim>\<open>table_id\<close>, \<^verbatim>\<open>bq_schema_fields\<close>, \<^verbatim>\<open>bq_rows\<close> of \<^verbatim>\<open>insertRowsToBigQuery\<close>.
\<close>

definition remove_not_matched :: "parsed_enum option list \<Rightarrow> parsed_enum list" where
  "remove_not_matched xs =
     List.map_filter (\<lambda>x. case x of None \<Rightarrow> None
                               | Some d \<Rightarrow> if 0 < length (values d) then Some d else None) xs"

definition columns :: "jsval list" where
  "columns = [JStr ''key'', JStr ''code'', JStr ''label'']"

definition loads :: "string list \<Rightarrow> (string \<times> jsobj list \<times> jsobj list) list" where
  "loads contents =
     map (\<lambda>parsed_enum.
            let table_id = camelToSnakeCase (ToString (name parsed_enum));
                bq_schema_fields = enumToBigQuerySchemaFields (values parsed_enum) columns;
                bq_rows = enumToBigQueryRows (values parsed_enum) columns
            in (table_id, bq_schema_fields, bq_rows))
         (remove_not_matched (map parseEnumDeclaration contents))"

text \<open>
  The rows as the push handler of \<^verbatim>\<open>src/index.js\<close> builds them, inline and without the
  test of \<^verbatim>\<open>values[i]\<close>: \<^verbatim>\<open>field_types.map((_, i) => (row[columns[i]] = values[i]))\<close>.
\<close>

definition github_rows :: "jsval list list \<Rightarrow> jsobj list" where
  "github_rows x_values =
     (let field_types = take 3 (guessSchema x_values)
      in map (\<lambda>vs. fold (\<lambda>i row. AList.update (ToString (at_index columns i)) (at_index vs i) row)
                        [0..<length field_types] [])
             x_values)"

section \<open>Properties of the matcher\<close>

text \<open>
  The matcher finds a match wherever \<^verbatim>\<open>rm\<close> has one: with \<^verbatim>\<open>m_sound\<close>, a pattern
  matches at a position exactly when \<^verbatim>\<open>rm\<close> says so.
\<close>

lemma m_complete:
  "rm inp r s t \<Longrightarrow> (\<And>c'. k t c' \<noteq> None) \<Longrightarrow> m inp r s c k \<noteq> None"
proof (induction arbitrary: c k rule: rm.induct)
  case (rm_Seq a s t b u)
  have "m inp a s c (\<lambda>rest' c'. m inp b rest' c' k) \<noteq> None"
    by (rule rm_Seq.IH(1)) (rule rm_Seq.IH(2), rule rm_Seq.prems)
  then show ?case by simp
next
  case (rm_AltL a s t b)
  have "m inp a s c k \<noteq> None" by (rule rm_AltL.IH) (rule rm_AltL.prems)
  then show ?case by (auto split: option.splits)
next
  case (rm_AltR b s t a)
  have "m inp b s c k \<noteq> None" by (rule rm_AltR.IH) (rule rm_AltR.prems)
  then show ?case by (auto split: option.splits)
next
  case (rm_Group r s t n)
  have "m inp r s c (\<lambda>rest' c'. k rest' (c'(n \<mapsto> take (length s - length rest') s))) \<noteq> None"
    by (rule rm_Group.IH) (rule rm_Group.prems)
  then show ?case by simp
next
  case (rm_Star0 g r s)
  then show ?case by (auto split: option.splits)
next
  case (rm_StarS r s t g u)
  have star: "m inp (Star g r) t c' k \<noteq> None" for c'
    by (rule rm_StarS.IH(2)) (rule rm_StarS.prems)
  show ?case
  proof (cases "t = s")
    case True
    with star[of c] show ?thesis by simp
  next
    case False
    from rm_suffix[OF rm_StarS.hyps(1)] False have lt: "length t < length s"
      by (metis suffix_length_le le_neq_implies_less suffix_def append_eq_append_conv append_Nil)
    let ?d = "\<lambda>rest' c'. if length rest' < length s then m inp (Star g r) rest' c' k else None"
    have "\<And>c'. ?d t c' \<noteq> None"
      using lt star by simp
    then have "m inp r s (reset (rgroups r) c) ?d \<noteq> None"
      by (rule rm_StarS.IH(1))
    then show ?thesis by (auto split: option.splits)
  qed
next
  case (rm_Plus r s t g u)
  have "m inp r s (reset (rgroups r) c) (\<lambda>rest' c'. m inp (Star g r) rest' c' k) \<noteq> None"
    by (rule rm_Plus.IH(1)) (rule rm_Plus.IH(2), rule rm_Plus.prems)
  then show ?case by simp
next
  case (rm_Opt0 g r s)
  then show ?case by (auto split: option.splits)
next
  case (rm_OptS r s t g)
  show ?case
  proof (cases "t = s")
    case True
    with rm_OptS.prems show ?thesis by (auto split: option.splits)
  next
    case False
    from rm_suffix[OF rm_OptS.hyps(1)] False have lt: "length t < length s"
      by (metis suffix_length_le le_neq_implies_less suffix_def append_eq_append_conv append_Nil)
    let ?d = "\<lambda>rest' c'. if length rest' < length s then k rest' c' else None"
    have "\<And>c'. ?d t c' \<noteq> None"
      using lt rm_OptS.prems by simp
    then have "m inp r s (reset (rgroups r) c) ?d \<noteq> None"
      by (rule rm_OptS.IH)
    then show ?thesis by (auto split: option.splits)
  qed
qed (auto split: list.splits)


lemma exec_complete:
  "rm inp re s t \<Longrightarrow> suffix s rest \<Longrightarrow> exec re inp rest \<noteq> None"
proof (induction rest)
  case Nil
  then have "s = []" by simp
  with Nil have "m inp re [] (\<lambda>n. None) (\<lambda>rest' c. Some (rest', c)) \<noteq> None"
    by (intro m_complete[where t = t]) auto
  then show ?case by (auto split: option.splits)
next
  case (Cons x xs)
  show ?case
  proof (cases "m inp re (x # xs) (\<lambda>n. None) (\<lambda>rest' c. Some (rest', c))")
    case None
    have "s \<noteq> x # xs"
    proof
      assume "s = x # xs"
      with Cons.prems have "m inp re (x # xs) (\<lambda>n. None) (\<lambda>rest' c. Some (rest', c)) \<noteq> None"
        by (intro m_complete[where t = t]) auto
      with None show False by simp
    qed
    with Cons.prems(2) have "suffix s xs" by (auto simp: suffix_Cons)
    from Cons.IH[OF Cons.prems(1) this] None show ?thesis by simp
  next
    case (Some z)
    then show ?thesis by (auto split: prod.splits)
  qed
qed

lemma regex_test_iff:
  "regex_test re inp \<longleftrightarrow> (\<exists>s t. suffix s inp \<and> rm inp re s t)"
proof
  assume "regex_test re inp"
  then obtain mt where "exec re inp inp = Some mt" by (auto simp: regex_test_def)
  from exec_sound[OF this] show "\<exists>s t. suffix s inp \<and> rm inp re s t"
    by (metis suffix_def)
next
  assume "\<exists>s t. suffix s inp \<and> rm inp re s t"
  then show "regex_test re inp"
    unfolding regex_test_def using exec_complete by blast
qed

lemma rm_Star_chars_only:
  assumes "rm inp r0 s t" and "r0 = Star g r"
    and one: "\<And>s t. rm inp r s t \<Longrightarrow> \<exists>x. s = x # t \<and> P x"
  shows "\<exists>w. s = w @ t \<and> (\<forall>ch\<in>set w. P ch)"
  using assms(1,2)
proof (induction rule: rm.induct)
  case (rm_Star0 g' r' s)
  have "s = [] @ s \<and> (\<forall>ch\<in>set []. P ch)" by simp
  then show ?case by (rule exI)
next
  case (rm_StarS r' s t g' u)
  from rm_StarS.prems have r': "r' = r" by simp
  from one[OF rm_StarS.hyps(1)[unfolded r']] obtain x where x: "s = x # t" "P x"
    by (elim exE conjE)
  from rm_StarS.IH(2)[OF rm_StarS.prems] obtain w where w: "t = w @ u" "\<forall>ch\<in>set w. P ch"
    by (elim exE conjE)
  from x w have "s = (x # w) @ u \<and> (\<forall>ch\<in>set (x # w). P ch)" by simp
  then show ?case by (rule exI)
qed simp_all

lemma rm_Star_chars:
  assumes one: "\<And>s t. rm inp r s t \<longleftrightarrow> (\<exists>x. s = x # t \<and> P x)"
  shows "rm inp (Star g r) s t \<longleftrightarrow> (\<exists>w. s = w @ t \<and> (\<forall>ch\<in>set w. P ch))"
proof
  assume "rm inp (Star g r) s t"
  then show "\<exists>w. s = w @ t \<and> (\<forall>ch\<in>set w. P ch)"
    by (rule rm_Star_chars_only[OF _ refl]) (rule one[THEN iffD1])
next
  assume "\<exists>w. s = w @ t \<and> (\<forall>ch\<in>set w. P ch)"
  then obtain w where "s = w @ t" "\<forall>ch\<in>set w. P ch" by (elim exE conjE)
  then show "rm inp (Star g r) s t"
  proof (induction w arbitrary: s)
    case Nil
    then show ?case by (simp add: rm_Star0)
  next
    case (Cons x w)
    from Cons.prems have "\<exists>y. s = y # (w @ t) \<and> P y" by simp
    then have "rm inp r s (w @ t)" by (rule one[THEN iffD2])
    moreover from Cons.prems have "rm inp (Star g r) (w @ t) t" by (intro Cons.IH) simp_all
    ultimately show ?case by (rule rm_StarS)
  qed
qed

lemma rm_Cls_iff: "rm inp (Cls cs) s t \<longleftrightarrow> (\<exists>x. s = x # t \<and> class_has cs x)"
  by (auto elim: rm_ClsE intro: rm_Cls)

lemma rm_NCls_iff: "rm inp (NCls cs) s t \<longleftrightarrow> (\<exists>x. s = x # t \<and> \<not> class_has cs x)"
  by (auto elim: rm_NClsE intro: rm_NCls)

lemma rm_Dot_iff: "rm inp Dot s t \<longleftrightarrow> (\<exists>x. s = x # t \<and> \<not> is_line_terminator x)"
  by (auto elim: rm_DotE intro: rm_Dot)

lemma rm_Lit_iff: "rm inp (Lit a) s t \<longleftrightarrow> s = a # t"
  by (auto elim: rm_LitE intro: rm_Lit)

lemma rm_Seq_iff: "rm inp (Seq a b) s u \<longleftrightarrow> (\<exists>t. rm inp a s t \<and> rm inp b t u)"
  by (auto elim: rm_SeqE intro: rm_Seq)

lemma rm_Group_iff: "rm inp (Group n r) s t \<longleftrightarrow> rm inp r s t"
  by (auto elim: rm_GroupE intro: rm_Group)

lemma rm_Plus_iff: "rm inp (Plus g r) s u \<longleftrightarrow> (\<exists>t. rm inp r s t \<and> rm inp (Star g r) t u)"
  by (auto elim: rm_PlusE intro: rm_Plus)

lemma rm_Bol_iff: "rm inp Bol s t \<longleftrightarrow> t = s \<and> length s = length inp"
  by (auto elim: rm_BolE intro: rm_Bol)

lemma rm_Eol_iff: "rm inp Eol s t \<longleftrightarrow> t = [] \<and> s = []"
  by (auto elim: rm_EolE intro: rm_Eol)

lemmas rm_Star_Cls_iff = rm_Star_chars[of _ "Cls cs" "class_has cs" for cs, OF rm_Cls_iff]
lemmas rm_Star_Dot_iff = rm_Star_chars[of _ Dot "\<lambda>x. \<not> is_line_terminator x", OF rm_Dot_iff]

lemma char_of_of_char_eq: "of_char ch = (k :: nat) \<Longrightarrow> ch = char_of k"
  by (metis char_of_char)

lemma digit_class: "class_has [Range (CHR ''0'') (CHR ''9'')] ch \<longleftrightarrow> ch \<in> set ''0123456789''"
proof
  assume "class_has [Range (CHR ''0'') (CHR ''9'')] ch"
  then have "48 \<le> (of_char ch :: nat) \<and> (of_char ch :: nat) \<le> 57"
    by (simp add: class_has_def)
  then have "(of_char ch :: nat) = 48 \<or> (of_char ch :: nat) = 49 \<or> (of_char ch :: nat) = 50
    \<or> (of_char ch :: nat) = 51 \<or> (of_char ch :: nat) = 52 \<or> (of_char ch :: nat) = 53
    \<or> (of_char ch :: nat) = 54 \<or> (of_char ch :: nat) = 55 \<or> (of_char ch :: nat) = 56
    \<or> (of_char ch :: nat) = 57"
    by arith
  then have "ch \<in> {char_of (48::nat), char_of (49::nat), char_of (50::nat), char_of (51::nat),
     char_of (52::nat), char_of (53::nat), char_of (54::nat), char_of (55::nat), char_of (56::nat),
     char_of (57::nat)}"
    by (elim disjE) (auto dest!: char_of_of_char_eq)
  also have "\<dots> = set ''0123456789''"
  proof -
    have cs: "char_of (48::nat) = CHR ''0''" "char_of (49::nat) = CHR ''1''"
      "char_of (50::nat) = CHR ''2''" "char_of (51::nat) = CHR ''3''"
      "char_of (52::nat) = CHR ''4''" "char_of (53::nat) = CHR ''5''"
      "char_of (54::nat) = CHR ''6''" "char_of (55::nat) = CHR ''7''"
      "char_of (56::nat) = CHR ''8''" "char_of (57::nat) = CHR ''9''"
      by (simp_all add: char_of_eq_iff)
    show ?thesis unfolding cs by simp
  qed
  finally show "ch \<in> set ''0123456789''" .
next
  assume "ch \<in> set ''0123456789''"
  then show "class_has [Range (CHR ''0'') (CHR ''9'')] ch"
    by (auto simp: class_has_def)
qed

lemma regex_test_all_digits:
  "regex_test re_all_digits s \<longleftrightarrow> s \<noteq> [] \<and> set s \<subseteq> set ''0123456789''"
proof -
  have "regex_test re_all_digits s \<longleftrightarrow>
     (\<exists>u t. suffix u s \<and> rm s (Seq Bol (Seq (Plus True (Cls [Range (CHR ''0'') (CHR ''9'')])) Eol)) u t)"
    by (simp add: regex_test_iff re_all_digits_def)
  also have "\<dots> \<longleftrightarrow> (\<exists>x w. s = x # w \<and> (\<forall>ch\<in>set (x # w). class_has [Range (CHR ''0'') (CHR ''9'')] ch))"
    (is "?L \<longleftrightarrow> ?R")
  proof
    assume ?L
    then obtain u t where u: "suffix u s" "length u = length s"
      and p: "rm s (Plus True (Cls [Range (CHR ''0'') (CHR ''9'')])) u []"
      by (auto simp: rm_Seq_iff rm_Bol_iff rm_Eol_iff)
    from u have "u = s" by (auto simp: suffix_def)
    with p show ?R by (auto simp: rm_Plus_iff rm_Cls_iff rm_Star_Cls_iff)
  next
    assume ?R
    then obtain x w where "s = x # w" "\<forall>ch\<in>set (x # w). class_has [Range (CHR ''0'') (CHR ''9'')] ch"
      by blast
    then have "rm s (Seq Bol (Seq (Plus True (Cls [Range (CHR ''0'') (CHR ''9'')])) Eol)) s []"
      by (auto simp: rm_Seq_iff rm_Bol_iff rm_Eol_iff rm_Plus_iff rm_Cls_iff rm_Star_Cls_iff)
    then show ?L by blast
  qed
  also have "\<dots> \<longleftrightarrow> s \<noteq> [] \<and> set s \<subseteq> set ''0123456789''"
  proof -
    have "(\<exists>x w. s = x # w \<and> (\<forall>ch\<in>set (x # w). ch \<in> A)) \<longleftrightarrow> s \<noteq> [] \<and> set s \<subseteq> A" for A
      by (cases s) auto
    then show ?thesis unfolding digit_class .
  qed
  finally show ?thesis .
qed

section \<open>Properties of guessSchema\<close>

lemma length_guessSchema: "length (guessSchema rows) = foldr max (map length rows) 0"
  by (simp add: guessSchema_def transpose_rows_def)

lemma guessSchema_nth:
  assumes "c < length (guessSchema rows)"
  shows "guessSchema rows ! c =
     (if list_all (\<lambda>y. isBoolean y) (map (\<lambda>r. at_index r c) rows) then ''boolean''
      else if list_all (\<lambda>y. isNumber (parseIntIfParsable y)) (map (\<lambda>r. at_index r c) rows) then ''integer''
      else ''string'')"
  using assms by (simp add: guessSchema_def transpose_rows_def)

lemma isNumber_parseIntIfParsable:
  "isNumber (parseIntIfParsable v) \<longleftrightarrow>
     (\<exists>n. v = JNum n) \<or> (\<exists>s. v = JStr s \<and> s \<noteq> [] \<and> set s \<subseteq> set ''0123456789'')"
  by (cases v) (auto simp: parseIntIfParsable_def regex_test_all_digits)

text \<open>
  The contributing values of column \<^verbatim>\<open>c\<close> in the sense of the specification: the entries
  \<^verbatim>\<open>r[c]\<close> of the rows that have position \<^verbatim>\<open>c\<close>.
\<close>

definition contributing :: "jsval list list \<Rightarrow> nat \<Rightarrow> jsval list" where
  "contributing rows c = map (\<lambda>r. r ! c) (filter (\<lambda>r. c < length r) rows)"

lemma at_index_contributing:
  assumes "\<forall>r\<in>set rows. c < length r"
  shows "map (\<lambda>r. at_index r c) rows = contributing rows c"
  using assms by (induction rows) (simp_all add: contributing_def at_index_def)

section \<open>Properties of parseEnumDeclaration\<close>

subsection \<open>The declaration block\<close>

lemma rm_lits_enum:
  "rm inp (lits '' enum '') s t \<longleftrightarrow> s = '' enum '' @ t"
  by (simp add: lits_def rm_Seq_iff rm_Lit_iff)

lemma whole_enum_shape:
  assumes "exec re_whole_enum inp rest = Some wm"
  shows "\<exists>pre post. rest = pre @ '' enum '' @ post \<and> CHR '';'' \<in> set post"
proof -
  from exec_sound[OF assms] obtain pre where p: "rest = pre @ whole wm @ after wm"
    and r: "rm inp re_whole_enum (whole wm @ after wm) (after wm)" by blast
  from r obtain t1 t2 t3 t4 where 1: "whole wm @ after wm = '' enum '' @ t1"
    and 2: "rm inp (Group 1 (Plus True (NCls [WhiteSpace]))) t1 t2"
    and 3: "rm inp (Star False Dot) t2 t3"
    and 4: "rm inp (Group 2 (Star False (Seq (Lit (CHR 0x0A)) (Star False Dot)))) t3 t4"
    and 5: "t4 = CHR '';'' # after wm"
    unfolding re_whole_enum_def by (auto simp: rm_Seq_iff rm_lits_enum rm_Lit_iff)
  from rm_suffix[OF 2] rm_suffix[OF 3] rm_suffix[OF 4] have "suffix t4 t1"
    by (meson suffix_order.trans)
  with 5 have "CHR '';'' \<in> set t1" by (auto simp: suffix_def)
  with p 1 show ?thesis by auto
qed

lemma parse_Some_shape:
  assumes "parseEnumDeclaration src = Some d"
  shows "\<exists>pre post. src = pre @ '' enum '' @ post \<and> CHR '';'' \<in> set post"
proof -
  from assms obtain wm where "exec re_whole_enum src src = Some wm"
    by (auto simp: parseEnumDeclaration_def split: option.splits)
  then show ?thesis by (rule whole_enum_shape)
qed

subsection \<open>Bare mode\<close>

lemma reset_Nil: "reset [] c = c"
  by (simp add: reset_def)

lemma star_cls_greedy:
  assumes "\<And>t c. k t c \<noteq> None"
  shows "m inp (Star True (Cls B)) xs c k = k (dropWhile (class_has B) xs) c"
proof (induction xs arbitrary: c)
  case Nil
  then show ?case by simp
next
  case (Cons y ys)
  let ?d = "\<lambda>rest' c'. if length rest' < length (y # ys) then m inp (Star True (Cls B)) rest' c' k else None"
  have unfold: "m inp (Star True (Cls B)) (y # ys) c k =
     (case m inp (Cls B) (y # ys) (reset (rgroups (Cls B)) c) ?d of Some z \<Rightarrow> Some z | None \<Rightarrow> k (y # ys) c)"
    by (subst m.simps(11)) (simp only: if_True)
  have cls: "m inp (Cls B) (y # ys) (reset (rgroups (Cls B)) c) ?d =
     (if class_has B y then m inp (Star True (Cls B)) ys (reset (rgroups (Cls B)) c) k else None)"
    by (simp del: m.simps add: m.simps(4))
  have r: "reset (rgroups (Cls B)) c = c" by (simp add: reset_Nil)
  have ih: "m inp (Star True (Cls B)) ys (reset (rgroups (Cls B)) c) k = k (dropWhile (class_has B) ys) c"
    unfolding r by (rule Cons.IH)
  show ?case
  proof (cases "class_has B y")
    case True
    from assms obtain z where z: "k (dropWhile (class_has B) ys) c = Some z" by fastforce
    have "m inp (Star True (Cls B)) (y # ys) c k =
      (case k (dropWhile (class_has B) ys) c of Some z \<Rightarrow> Some z | None \<Rightarrow> k (y # ys) c)"
      unfolding unfold cls ih using True by (simp del: m.simps)
    with z True show ?thesis by (simp del: m.simps)
  next
    case False
    have "m inp (Star True (Cls B)) (y # ys) c k = k (y # ys) c"
      unfolding unfold cls using False by (simp del: m.simps)
    with False show ?thesis by (simp del: m.simps)
  qed
qed

lemma take_minus_dropWhile: "take (length xs - length (dropWhile P xs)) xs = takeWhile P xs"
proof -
  have "length xs - length (dropWhile P xs) = length (takeWhile P xs)"
    by (metis add_diff_cancel_right' length_append takeWhile_dropWhile_id)
  then show ?thesis by (simp add: takeWhile_eq_take[symmetric])
qed

text \<open>The two character classes of \<^verbatim>\<open>re_key\<close>.\<close>

definition key_start :: "char \<Rightarrow> bool" where
  "key_start ch = class_has [Range (CHR ''A'') (CHR ''Z''), One (CHR ''_'')] ch"

definition key_char :: "char \<Rightarrow> bool" where
  "key_char ch = class_has [Range (CHR ''A'') (CHR ''Z''), Range (CHR ''0'') (CHR ''9''), One (CHR ''_'')] ch"

lemma exec_re_key_Nil: "exec (re_key g) inp [] = None"
  by (simp add: re_key_def)

lemma exec_re_key_Cons:
  "exec (re_key g) inp (x # xs) =
     (if key_start x
      then Some \<lparr>whole = x # takeWhile key_char xs,
                 caps = (\<lambda>n. None)(g \<mapsto> x # takeWhile key_char xs),
                 after = dropWhile key_char xs\<rparr>
      else exec (re_key g) inp xs)"
proof -
  let ?A = "[Range (CHR ''A'') (CHR ''Z''), One (CHR ''_'')]"
  let ?B = "[Range (CHR ''A'') (CHR ''Z''), Range (CHR ''0'') (CHR ''9''), One (CHR ''_'')]"
  let ?k0 = "\<lambda>rest' (c :: captures). Some (rest', c)"
  let ?k1 = "\<lambda>rest' (c' :: captures). ?k0 rest' (c'(g \<mapsto> take (length (x # xs) - length rest') (x # xs)))"
  have le: "length (dropWhile key_char xs) \<le> length xs" by (rule length_dropWhile_le)
  have t: "take (Suc (length xs) - length (dropWhile key_char xs)) (x # xs) = x # takeWhile key_char xs"
    using le by (simp add: Suc_diff_le take_minus_dropWhile)
  have "m inp (re_key g) (x # xs) (\<lambda>n. None) ?k0
      = m inp (Cls ?A) (x # xs) (\<lambda>n. None) (\<lambda>rest' c'. m inp (Star True (Cls ?B)) rest' c' ?k1)"
    unfolding re_key_def by (simp only: m.simps(8,10))
  also have "\<dots> = (if key_start x then m inp (Star True (Cls ?B)) xs (\<lambda>n. None) ?k1 else None)"
    by (simp only: m.simps(4) list.case key_start_def)
  also have "m inp (Star True (Cls ?B)) xs (\<lambda>n. None) ?k1 = ?k1 (dropWhile (class_has ?B) xs) (\<lambda>n. None)"
    by (rule star_cls_greedy) simp
  also have "\<dots> = Some (dropWhile key_char xs, (\<lambda>n. None)(g \<mapsto> x # takeWhile key_char xs))"
    using t by (simp add: key_char_def[abs_def] del: fun_upd_apply)
  finally have M: "m inp (re_key g) (x # xs) (\<lambda>n. None) ?k0 =
     (if key_start x then Some (dropWhile key_char xs, (\<lambda>n. None)(g \<mapsto> x # takeWhile key_char xs)) else None)" .
  show ?thesis
    unfolding exec.simps M using t by (simp del: fun_upd_apply)
qed


text \<open>
  The identifier tokens of a text, as the specification describes bare mode: from left to
  right, each token starts at the next capital letter or underscore and takes the capital
  letters, digits and underscores that follow.
\<close>

function identifiers :: "string \<Rightarrow> string list" where
  "identifiers [] = []"
| "identifiers (x # xs) =
     (if key_start x then (x # takeWhile key_char xs) # identifiers (dropWhile key_char xs)
      else identifiers xs)"
  by pat_completeness auto
termination
  by (relation "measure length") (auto simp: length_dropWhile_le less_Suc_eq_le)

lemma parse_loop_bare:
  "parse_loop True sec rest n acc =
     acc @ map (\<lambda>i. [JStr (identifiers rest ! i), JNum (n + i)]) [0..<length (identifiers rest)]"
proof (induction rest arbitrary: n acc rule: identifiers.induct)
  case 1
  show ?case
    by (subst parse_loop.simps)
       (simp add: re_enum_def re_enum_without_paren_def exec_re_key_Nil del: exec.simps)
next
  case (2 x xs)
  show ?case
  proof (cases "key_start x")
    case True
    let ?k = "x # takeWhile key_char xs"
    let ?ids = "identifiers (dropWhile key_char xs)"
    have "parse_loop True sec (x # xs) n acc =
        parse_loop True sec (dropWhile key_char xs) (n + 1) (acc @ [[JStr ?k, JNum n]])"
      by (subst parse_loop.simps)
         (simp add: re_enum_def re_enum_without_paren_def exec_re_key_Cons True capture_def
            del: exec.simps)
    also have "\<dots> = (acc @ [[JStr ?k, JNum n]]) @
        map (\<lambda>i. [JStr (?ids ! i), JNum (n + 1 + i)]) [0..<length ?ids]"
      by (rule "2.IH"(1)[OF True])
    also have "\<dots> = acc @ map (\<lambda>i. [JStr ((?k # ?ids) ! i), JNum (n + i)]) [0..<length (?k # ?ids)]"
      by (simp add: upt_conv_Cons map_Suc_upt[symmetric] del: upt_Suc)
    finally show ?thesis using True by simp
  next
    case False
    have "parse_loop True sec (x # xs) n acc = parse_loop True sec xs n acc"
      by (subst parse_loop.simps, subst (2) parse_loop.simps)
         (simp add: re_enum_def re_enum_without_paren_def exec_re_key_Cons False del: exec.simps)
    with "2.IH"(2)[OF False] False show ?thesis by simp
  qed
qed

subsection \<open>The filter of the push handler\<close>

lemma remove_not_matched_append:
  "remove_not_matched (xs @ ys) = remove_not_matched xs @ remove_not_matched ys"
  by (simp add: remove_not_matched_def List.map_filter_def)

lemma loads_append: "loads (xs @ ys) = loads xs @ loads ys"
  by (simp add: loads_def remove_not_matched_append)

lemma loads_no_values:
  "parseEnumDeclaration s = Some d \<Longrightarrow> values d = [] \<Longrightarrow> loads [s] = []"
  by (simp add: loads_def remove_not_matched_def List.map_filter_def)

subsection \<open>Paren mode\<close>

text \<open>
  An identifier in the specification's sense: capital letters, digits and underscores, not
  starting with a digit.
\<close>

definition is_key :: "string \<Rightarrow> bool" where
  "is_key key = (\<exists>x w. key = x # w \<and> key_start x \<and> list_all key_char w)"

text \<open>
  The texts that \<^verbatim>\<open>re_test_enum_with_paren\<close> accepts, read off the pattern
  \<^verbatim>\<open>${re_key}\s*\(.*\)\<close> piece by piece: somewhere in the text a key, then whitespace
  (\<^verbatim>\<open>\s*\<close>: none, or any, line ends among it), an opening parenthesis, characters that
  are no line terminators (\<^verbatim>\<open>.*\<close>), and a closing parenthesis. That the pattern
  accepts exactly these texts is \<^verbatim>\<open>test_paren_iff\<close> below.
\<close>

definition one_line_paren_group :: "string \<Rightarrow> bool" where
  "one_line_paren_group sec =
     (\<exists>pre key ws body post. sec = pre @ key @ ws @ ''('' @ body @ '')'' @ post \<and> is_key key
        \<and> list_all is_white_space ws \<and> list_all (\<lambda>ch. \<not> is_line_terminator ch) body)"

text \<open>
  The pattern as the specification words it: an identifier of capital letters, digits and
  underscores followed by a parenthesized group, somewhere in the text.
\<close>

definition has_ident_with_group :: "string \<Rightarrow> bool" where
  "has_ident_with_group sec =
     (\<exists>pre key body post. sec = pre @ key @ ''('' @ body @ '')'' @ post \<and> is_key key)"

lemma class_WhiteSpace: "class_has [WhiteSpace] ch = is_white_space ch"
  by (simp add: class_has_def)

lemma rm_re_key_iff: "rm inp (re_key g) s t \<longleftrightarrow> (\<exists>key. s = key @ t \<and> is_key key)"
proof
  assume "rm inp (re_key g) s t"
  then obtain x w where "s = x # w @ t" "key_start x" "\<forall>ch\<in>set w. key_char ch"
    unfolding re_key_def
    by (auto simp: rm_Group_iff rm_Seq_iff rm_Cls_iff rm_Star_Cls_iff key_start_def key_char_def)
  then have "s = (x # w) @ t \<and> is_key (x # w)" by (simp add: is_key_def list_all_iff)
  then show "\<exists>key. s = key @ t \<and> is_key key" by blast
next
  assume "\<exists>key. s = key @ t \<and> is_key key"
  then obtain x w where "s = x # w @ t" "key_start x" "\<forall>ch\<in>set w. key_char ch"
    by (auto simp: is_key_def list_all_iff)
  then show "rm inp (re_key g) s t"
    unfolding re_key_def
    by (auto simp: rm_Group_iff rm_Seq_iff rm_Cls_iff rm_Star_Cls_iff key_start_def key_char_def)
qed

lemma rm_test_iff:
  "rm inp re_test_enum_with_paren s t \<longleftrightarrow>
     (\<exists>key ws body. s = key @ ws @ ''('' @ body @ '')'' @ t \<and> is_key key
        \<and> list_all is_white_space ws \<and> list_all (\<lambda>ch. \<not> is_line_terminator ch) body)"
proof
  assume "rm inp re_test_enum_with_paren s t"
  then obtain t1 t2 t3 t4 where 1: "rm inp (re_key 1) s t1"
    and 2: "rm inp (Star True (Cls [WhiteSpace])) t1 t2"
    and 3: "t2 = CHR ''('' # t3"
    and 4: "rm inp (Star True Dot) t3 t4"
    and 5: "t4 = CHR '')'' # t"
    unfolding re_test_enum_with_paren_def by (auto simp: rm_Seq_iff rm_Lit_iff)
  from 1 obtain key where k: "s = key @ t1" "is_key key" unfolding rm_re_key_iff by blast
  from 2 obtain ws where w: "t1 = ws @ t2" "list_all is_white_space ws"
    unfolding rm_Star_Cls_iff class_WhiteSpace list_all_iff by blast
  from 4 obtain body where b: "t3 = body @ t4" "list_all (\<lambda>ch. \<not> is_line_terminator ch) body"
    unfolding rm_Star_Dot_iff list_all_iff by blast
  from k w b 3 5 have "s = key @ ws @ ''('' @ body @ '')'' @ t" by simp
  with k w b show "\<exists>key ws body. s = key @ ws @ ''('' @ body @ '')'' @ t \<and> is_key key
        \<and> list_all is_white_space ws \<and> list_all (\<lambda>ch. \<not> is_line_terminator ch) body"
    by blast
next
  assume "\<exists>key ws body. s = key @ ws @ ''('' @ body @ '')'' @ t \<and> is_key key
        \<and> list_all is_white_space ws \<and> list_all (\<lambda>ch. \<not> is_line_terminator ch) body"
  then obtain key ws body where s: "s = key @ ws @ ''('' @ body @ '')'' @ t" and k: "is_key key"
    and w: "list_all is_white_space ws" and b: "list_all (\<lambda>ch. \<not> is_line_terminator ch) body"
    by blast
  have 1: "rm inp (re_key 1) s (ws @ ''('' @ body @ '')'' @ t)"
    unfolding rm_re_key_iff using s k by blast
  have 2: "rm inp (Star True (Cls [WhiteSpace])) (ws @ ''('' @ body @ '')'' @ t) (''('' @ body @ '')'' @ t)"
    unfolding rm_Star_Cls_iff class_WhiteSpace using w by (auto simp: list_all_iff)
  have 4: "rm inp (Star True Dot) (body @ '')'' @ t) ('')'' @ t)"
    unfolding rm_Star_Dot_iff using b by (auto simp: list_all_iff)
  show "rm inp re_test_enum_with_paren s t"
    unfolding re_test_enum_with_paren_def using 1 2 4
    by (auto simp: rm_Seq_iff rm_Lit_iff)
qed

lemma test_paren_iff: "regex_test re_test_enum_with_paren sec \<longleftrightarrow> one_line_paren_group sec"
proof -
  have "regex_test re_test_enum_with_paren sec \<longleftrightarrow>
     (\<exists>pre s t. sec = pre @ s \<and> rm sec re_test_enum_with_paren s t)"
    unfolding regex_test_iff suffix_def by blast
  also have "\<dots> \<longleftrightarrow> one_line_paren_group sec"
    unfolding rm_test_iff one_line_paren_group_def by blast
  finally show ?thesis .
qed


lemma exec_m:
  "exec re inp rest = Some mt \<Longrightarrow>
     \<exists>pre s. rest = pre @ s \<and> m inp re s (\<lambda>n. None) (\<lambda>rest' c. Some (rest', c)) = Some (after mt, caps mt)"
proof (induction rest)
  case Nil
  then show ?case by (auto split: option.splits prod.splits)
next
  case (Cons x xs)
  show ?case
  proof (cases "m inp re (x # xs) (\<lambda>n. None) (\<lambda>rest' c. Some (rest', c))")
    case None
    with Cons.prems have "exec re inp xs = Some mt" by simp
    from Cons.IH[OF this] obtain pre s where "xs = pre @ s"
      and "m inp re s (\<lambda>n. None) (\<lambda>rest' c. Some (rest', c)) = Some (after mt, caps mt)" by blast
    then have "x # xs = (x # pre) @ s
       \<and> m inp re s (\<lambda>n. None) (\<lambda>rest' c. Some (rest', c)) = Some (after mt, caps mt)" by simp
    then show ?thesis by blast
  next
    case (Some z)
    obtain rest' c where z: "z = (rest', c)" by (cases z)
    from Some z Cons.prems have "after mt = rest'" "caps mt = c" by auto
    with Some z have "x # xs = [] @ (x # xs)
       \<and> m inp re (x # xs) (\<lambda>n. None) (\<lambda>rest' c. Some (rest', c)) = Some (after mt, caps mt)" by simp
    then show ?thesis by blast
  qed
qed

lemma paren_match:
  assumes "exec re_enum_with_paren inp rest = Some mt"
  shows "\<exists>pre key ws post. rest = pre @ key @ ws @ ''('' @ post \<and> is_key key
           \<and> list_all is_white_space ws \<and> capture mt 1 = JStr key"
proof -
  define tail where "tail = seqs
     [Star True (Cls [WhiteSpace]), Lit (CHR ''(''), Star True (Cls [WhiteSpace]),
      re_code 2, Opt True (re_label 5), Opt True (re_label 8), Star True (re_label 11),
      Star True (Cls [WhiteSpace]), Lit (CHR '')'')]"
  define key_body where "key_body = Seq (Cls [Range (CHR ''A'') (CHR ''Z''), One (CHR ''_'')])
     (Star True (Cls [Range (CHR ''A'') (CHR ''Z''), Range (CHR ''0'') (CHR ''9''), One (CHR ''_'')]))"
  have re: "re_enum_with_paren = Seq (Group 1 key_body) tail"
    by (simp add: re_enum_with_paren_def tail_def key_body_def re_key_def)
  have key: "re_key 1 = Group 1 key_body" by (simp add: re_key_def key_body_def)
  have out: "1 \<notin> set (rgroups tail)"
    by (simp add: tail_def re_code_def re_label_def re_literal_def re_comma_def lits_def)
  let ?k0 = "\<lambda>rest' (c :: captures). Some (rest', c)"
  from exec_m[OF assms] obtain pre s where rest: "rest = pre @ s"
    and ms: "m inp re_enum_with_paren s (\<lambda>n. None) ?k0 = Some (after mt, caps mt)" by blast
  from ms have "m inp key_body s (\<lambda>n. None)
      (\<lambda>rest' c'. m inp tail rest' (c'(1 \<mapsto> take (length s - length rest') s)) ?k0)
      = Some (after mt, caps mt)"
    unfolding re by (simp only: m.simps(8) m.simps(10))
  from m_sound_caps[OF this] obtain t c1 where kb: "rm inp key_body s t"
    and mt: "m inp tail t (c1(1 \<mapsto> take (length s - length t) s)) ?k0 = Some (after mt, caps mt)"
    by blast
  from m_sound_caps[OF mt] obtain u c2 where tl: "rm inp tail t u"
    and k0: "?k0 u c2 = Some (after mt, caps mt)"
    and so: "same_outside (rgroups tail) (c1(1 \<mapsto> take (length s - length t) s)) c2"
    by blast
  from k0 have c2: "c2 = caps mt" by simp
  from so out have cap: "caps mt 1 = Some (take (length s - length t) s)"
    unfolding c2 same_outside_def by simp
  from kb have "rm inp (re_key 1) s t" unfolding key by (rule rm_Group)
  then obtain k where k: "s = k @ t" "is_key k" unfolding rm_re_key_iff by blast
  from k(1) have tk: "take (length s - length t) s = k" by simp
  from tl obtain t1 t2 where "rm inp (Star True (Cls [WhiteSpace])) t t1" "t1 = CHR ''('' # t2"
    unfolding tail_def by (auto simp: rm_Seq_iff rm_Lit_iff)
  then obtain ws where ws: "t = ws @ ''('' @ t2" "list_all is_white_space ws"
    unfolding rm_Star_Cls_iff class_WhiteSpace list_all_iff by auto
  from rest k ws have "rest = pre @ k @ ws @ ''('' @ t2" by simp
  moreover from cap tk have "capture mt 1 = JStr k" by (simp add: capture_def)
  ultimately show ?thesis using k(2) ws(2) by blast
qed

text \<open>
  A tuple of paren mode: an identifier that the section has before a parenthesis, and
  then strings (no ordinal).
\<close>

definition paren_entry :: "string \<Rightarrow> jsval list \<Rightarrow> bool" where
  "paren_entry sec t =
     (\<exists>key more pre ws post. t = JStr key # more \<and> list_all (\<lambda>v. \<exists>s. v = JStr s) more
        \<and> sec = pre @ key @ ws @ ''('' @ post \<and> is_key key \<and> list_all is_white_space ws)"

lemma filter_truthy_captures:
  "list_all (\<lambda>v. \<exists>s. v = JStr s) (filter truthy (map (capture mt) ns))"
proof -
  have "truthy (capture mt n) \<Longrightarrow> \<exists>s. capture mt n = JStr s" for n
    by (cases "caps mt n") (simp_all add: capture_def)
  then show ?thesis by (auto simp: list_all_iff)
qed

lemma paren_tuple:
  assumes "capture mt 1 = JStr key" and "is_key key"
  shows "\<exists>more. filter truthy (slice1 re_enum_with_paren mt) = JStr key # more
           \<and> list_all (\<lambda>v. \<exists>s. v = JStr s) more"
proof -
  have n: "length (rgroups re_enum_with_paren) = 13"
    by (simp add: re_enum_with_paren_def re_key_def re_code_def re_label_def re_literal_def
        re_comma_def lits_def)
  have u: "[1..<Suc 13] = 1 # [2..<14]" by (simp add: upt_conv_Cons)
  from assms(2) have "key \<noteq> []" by (auto simp: is_key_def)
  with assms(1) have "filter truthy (slice1 re_enum_with_paren mt)
      = JStr key # filter truthy (map (capture mt) [2..<14])"
    unfolding slice1_def n u by simp
  with filter_truthy_captures[of mt "[2..<14]"] show ?thesis by blast
qed

lemma parse_loop_paren:
  "suffix rest sec \<Longrightarrow> list_all (paren_entry sec) acc
     \<Longrightarrow> list_all (paren_entry sec) (parse_loop False sec rest n acc)"
proof (induction "length rest" arbitrary: rest n acc rule: less_induct)
  case less
  show ?case
  proof (cases "exec (re_enum False) sec rest")
    case None
    with less.prems(2) show ?thesis by (subst parse_loop.simps) simp
  next
    case (Some mt)
    from Some have e: "exec re_enum_with_paren sec rest = Some mt" by (simp add: re_enum_def)
    from exec_re_enum_shorter[OF Some] have lt: "length (after mt) < length rest" .
    from exec_sound[OF Some] have "suffix (after mt) rest" by (metis suffix_def append.assoc)
    from this less.prems(1) have su: "suffix (after mt) sec" by (rule suffix_order.trans)
    from paren_match[OF e] obtain pre key ws post where r: "rest = pre @ key @ ws @ ''('' @ post"
      and k: "is_key key" and w: "list_all is_white_space ws" and c: "capture mt 1 = JStr key"
      by blast
    from paren_tuple[OF c k] obtain more
      where t: "filter truthy (slice1 re_enum_with_paren mt) = JStr key # more"
        and m: "list_all (\<lambda>v. \<exists>s. v = JStr s) more" by blast
    from less.prems(1) obtain pre0 where "sec = pre0 @ rest" by (auto simp: suffix_def)
    with r have "sec = (pre0 @ pre) @ key @ ws @ ''('' @ post" by simp
    with k w m have "paren_entry sec (JStr key # more)" unfolding paren_entry_def by blast
    with less.prems(2) t
    have acc: "list_all (paren_entry sec) (acc @ [filter truthy (slice1 (re_enum False) mt)])"
      by (simp add: re_enum_def)
    have "parse_loop False sec rest n acc
        = parse_loop False sec (after mt) n (acc @ [filter truthy (slice1 (re_enum False) mt)])"
      by (subst parse_loop.simps) (simp add: Some)
    with less.hyps[OF lt su acc] show ?thesis by simp
  qed
qed

text \<open>
  Which mode a declaration is read in. The test succeeds exactly on the sections that
  \<^verbatim>\<open>one_line_paren_group\<close> describes; then every tuple of the result is a tuple of paren
  mode, an identifier that the section has before a parenthesis and strings, so that an
  identifier without parentheses gives no entry. Otherwise every tuple is a tuple of bare
  mode, an identifier token with its ordinal. No result mixes the two.
\<close>

lemma mode_of_declaration:
  assumes "exec re_whole_enum source_code source_code = Some whole_matched"
  shows "(regex_test re_test_enum_with_paren (ToString (capture whole_matched 2))
            \<longleftrightarrow> one_line_paren_group (ToString (capture whole_matched 2)))
     \<and> (\<exists>d. parseEnumDeclaration source_code = Some d
           \<and> (if one_line_paren_group (ToString (capture whole_matched 2))
               then list_all (paren_entry (ToString (capture whole_matched 2))) (values d)
               else values d = map (\<lambda>i. [JStr (identifiers (ToString (capture whole_matched 2)) ! i), JNum i])
                                   [0..<length (identifiers (ToString (capture whole_matched 2)))]))"
proof -
  let ?sec = "ToString (capture whole_matched 2)"
  have p: "parseEnumDeclaration source_code = Some \<lparr>name = capture whole_matched 1,
      values = parse_loop (\<not> one_line_paren_group ?sec) ?sec ?sec 0 []\<rparr>"
    using assms by (simp add: parseEnumDeclaration_def Let_def test_paren_iff del: parse_loop.simps)
  have "list_all (paren_entry ?sec) (parse_loop False ?sec ?sec 0 [])"
    by (rule parse_loop_paren) simp_all
  with p show ?thesis by (simp add: test_paren_iff parse_loop_bare del: parse_loop.simps)
qed

subsection \<open>The name and the value section are strings\<close>

lemma whole_enum_captures:
  assumes "exec re_whole_enum inp rest = Some wm"
  shows "\<exists>n s. capture wm 1 = JStr n \<and> capture wm 2 = JStr s"
proof -
  define lead where "lead = lits '' enum ''"
  define nm where "nm = Plus True (NCls [WhiteSpace])"
  define ln where "ln = Star False Dot"
  define body where "body = Star False (Seq (Lit (CHR 0x0A)) (Star False Dot))"
  have re: "re_whole_enum = Seq lead (Seq (Group 1 nm) (Seq ln (Seq (Group 2 body) (Lit (CHR '';'')))))"
    by (simp add: re_whole_enum_def lead_def nm_def ln_def body_def)
  let ?k0 = "\<lambda>rest' (c :: captures). Some (rest', c)"
  from exec_m[OF assms] obtain pre s where
    ms: "m inp re_whole_enum s (\<lambda>n. None) ?k0 = Some (after wm, caps wm)" by blast
  from ms have "m inp lead s (\<lambda>n. None)
      (\<lambda>r1 c1. m inp nm r1 c1
        (\<lambda>r2 c2. m inp ln r2 (c2(1 \<mapsto> take (length r1 - length r2) r1))
          (\<lambda>r3 c3. m inp body r3 c3
            (\<lambda>r4 c4. m inp (Lit (CHR '';'')) r4 (c4(2 \<mapsto> take (length r3 - length r4) r3)) ?k0))))
      = Some (after wm, caps wm)"
    unfolding re by (simp only: m.simps(8) m.simps(10))
  from m_sound_caps[OF this] obtain r1 c1 where
    "m inp nm r1 c1
        (\<lambda>r2 c2. m inp ln r2 (c2(1 \<mapsto> take (length r1 - length r2) r1))
          (\<lambda>r3 c3. m inp body r3 c3
            (\<lambda>r4 c4. m inp (Lit (CHR '';'')) r4 (c4(2 \<mapsto> take (length r3 - length r4) r3)) ?k0)))
      = Some (after wm, caps wm)" by blast
  from m_sound_caps[OF this] obtain r2 c2 where
    "m inp ln r2 (c2(1 \<mapsto> take (length r1 - length r2) r1))
          (\<lambda>r3 c3. m inp body r3 c3
            (\<lambda>r4 c4. m inp (Lit (CHR '';'')) r4 (c4(2 \<mapsto> take (length r3 - length r4) r3)) ?k0))
      = Some (after wm, caps wm)" by blast
  from m_sound_caps[OF this] obtain r3 c3 where
    3: "m inp body r3 c3
            (\<lambda>r4 c4. m inp (Lit (CHR '';'')) r4 (c4(2 \<mapsto> take (length r3 - length r4) r3)) ?k0)
      = Some (after wm, caps wm)"
    and s3: "same_outside (rgroups ln) (c2(1 \<mapsto> take (length r1 - length r2) r1)) c3" by blast
  from s3 have c31: "c3 1 = Some (take (length r1 - length r2) r1)"
    by (simp add: same_outside_def ln_def)
  from m_sound_caps[OF 3] obtain r4 c4 where
    4: "m inp (Lit (CHR '';'')) r4 (c4(2 \<mapsto> take (length r3 - length r4) r3)) ?k0 = Some (after wm, caps wm)"
    and s4: "same_outside (rgroups body) c3 c4" by blast
  from s4 c31 have c41: "c4 1 = Some (take (length r1 - length r2) r1)"
    by (simp add: same_outside_def body_def)
  from 4 have "caps wm = c4(2 \<mapsto> take (length r3 - length r4) r3)"
    by (auto split: list.splits if_splits)
  with c41 show ?thesis by (simp add: capture_def)
qed

lemma parse_name_is_string:
  "parseEnumDeclaration source_code = Some d \<Longrightarrow> \<exists>n. name d = JStr n"
  by (auto simp: parseEnumDeclaration_def Let_def split: option.splits dest: whole_enum_captures)


section \<open>Properties of the rows\<close>

text \<open>A tuple of truthy values, as paren mode gives, has the row of its first three values.\<close>

lemma rows_of_truthy_tuple:
  assumes "list_all truthy vs"
  shows "enumToBigQueryRows [vs] columns = [zip [''key'', ''code'', ''label''] vs]"
proof -
  consider "vs = []" | a where "vs = [a]" | a b where "vs = [a, b]"
    | a b c r where "vs = a # b # c # r"
    by (cases vs; cases "tl vs"; cases "tl (tl vs)") auto
  then show ?thesis
    using assms
    by cases (simp_all add: enumToBigQueryRows_def columns_def at_index_def upt_rec)
qed

section \<open>Evaluating the program on a text\<close>

text \<open>
  The simplifier runs the matcher on a concrete text: it rewrites the text that is left,
  and leaves the continuation alone until the matcher calls it.
\<close>

declare parse_loop.simps [simp del]

lemma m_weak_cong [cong]: "rest = rest' \<Longrightarrow> m inp r rest c k = m inp r rest' c k"
  by simp

lemmas re_defs = re_enum_with_paren_def re_key_def re_code_def re_label_def re_literal_def
  re_comma_def lits_def re_whole_enum_def re_test_enum_with_paren_def re_enum_without_paren_def
  re_enum_def re_all_digits_def

lemmas ev_defs = slice1_def capture_def class_has_def is_white_space_def is_line_terminator_def
  reset_def regex_test_def parseEnumDeclaration_def Let_def parse_loop.simps

lemmas guess_defs = guessSchema_def transpose_rows_def at_index_def isBoolean_def
  parseIntIfParsable_def parseInt10_def

lemmas load_defs = loads_def remove_not_matched_def List.map_filter_def columns_def
  camelToSnakeCase_def is_upper_def to_lower_def enumToBigQuerySchemaFields_def
  enumToBigQueryRows_def char_of_eq_iff

lemma parse_multi_line:
  \<open>parseEnumDeclaration ''public enum Status {\<newline>  OK(0, "Green"),\<newline>  NG(1, "Red");\<newline>}''
     = Some \<lparr>name = JStr ''Status'',
              values = [[JStr ''OK'', JStr ''0'', JStr ''Green''], [JStr ''NG'', JStr ''1'', JStr ''Red'']]\<rparr>\<close>
  by (simp add: re_defs ev_defs)

lemma parse_single_line:
  \<open>parseEnumDeclaration ''public enum Status { OK(0, "Green"), NG(1, "Red"); }''
     = Some \<lparr>name = JStr ''Status'', values = []\<rparr>\<close>
  by (simp add: re_defs ev_defs)

lemma parse_declaration_alone:
  \<open>parseEnumDeclaration ''enum Status { OK(0, "Green"), NG(1, "Red"); }'' = None\<close>
  by (simp add: re_defs ev_defs)

lemma guess_status:
  "guessSchema [[JStr ''OK'', JStr ''0'', JStr ''Green''], [JStr ''NG'', JStr ''1'', JStr ''Red'']]
     = [''string'', ''integer'', ''string'']"
  by (simp add: guess_defs re_defs ev_defs)

lemma parse_bare_two:
  \<open>parseEnumDeclaration '' enum E {\<newline> OK, NG;''
     = Some \<lparr>name = JStr ''E'', values = [[JStr ''OK'', JNum 0], [JStr ''NG'', JNum 1]]\<rparr>\<close>
  by (simp add: re_defs ev_defs)

lemma whole_enum_found_E:
  \<open>\<exists>wm. exec re_whole_enum '' enum E {\<newline> A, B,\<newline>\<newline>   C;'' '' enum E {\<newline> A, B,\<newline>\<newline>   C;'' = Some wm
     \<and> capture wm 2 = JStr ''\<newline> A, B,\<newline>\<newline>   C''\<close>
  by (simp add: re_defs ev_defs)

lemma whole_enum_found_empty:
  \<open>\<exists>wm. exec re_whole_enum ''public enum Empty {\<newline>    ;\<newline>}'' ''public enum Empty {\<newline>    ;\<newline>}'' = Some wm
     \<and> capture wm 1 = JStr ''Empty'' \<and> capture wm 2 = JStr ''\<newline>    ''\<close>
  by (simp add: re_defs ev_defs)

lemma whole_enum_found_mixed:
  \<open>\<exists>wm. exec re_whole_enum '' enum E {\<newline> A,\<newline> B(1);'' '' enum E {\<newline> A,\<newline> B(1);'' = Some wm
     \<and> capture wm 2 = JStr ''\<newline> A,\<newline> B(1)''\<close>
  by (simp add: re_defs ev_defs)

lemma parse_mixed:
  \<open>parseEnumDeclaration '' enum E {\<newline> A,\<newline> B(1);''
     = Some \<lparr>name = JStr ''E'', values = [[JStr ''B'', JStr ''1'']]\<rparr>\<close>
  by (simp add: re_defs ev_defs)

lemma whole_enum_found_two:
  \<open>\<exists>wm. exec re_whole_enum '' enum E {\<newline> OK, NG;'' '' enum E {\<newline> OK, NG;'' = Some wm
     \<and> capture wm 2 = JStr ''\<newline> OK, NG''\<close>
  by (simp add: re_defs ev_defs)

lemma guess_bare_two: "guessSchema [[JStr ''OK'', JNum 0], [JStr ''NG'', JNum 1]] = [''string'', ''integer'']"
  by (simp add: guess_defs re_defs ev_defs digits_of.simps digit_char_def char_of_eq_iff)

lemma github_rows_short_tuple:
  "github_rows [[JStr ''A'', JStr ''1''], [JStr ''B'', JStr ''2'', JStr ''x'']]
     = [[(''key'', JStr ''A''), (''code'', JStr ''1''), (''label'', JUndefined)],
        [(''key'', JStr ''B''), (''code'', JStr ''2''), (''label'', JStr ''x'')]]"
proof -
  have "guessSchema [[JStr ''A'', JStr ''1''], [JStr ''B'', JStr ''2'', JStr ''x'']]
      = [''string'', ''integer'', ''string'']"
    by (simp add: guess_defs re_defs ev_defs)
  then show ?thesis
    unfolding github_rows_def by (simp add: columns_def at_index_def upt_rec)
qed

text \<open>
  A section with \<^verbatim>\<open>A\<close> alone and \<^verbatim>\<open>B(1)\<close>: paren mode, and \<^verbatim>\<open>A\<close> gives no entry.
  A section without parentheses: bare mode.
\<close>

lemma mode_of_mixed_section:
  \<open>one_line_paren_group ''\<newline> A,\<newline> B(1)''
   \<and> (\<exists>d. parseEnumDeclaration '' enum E {\<newline> A,\<newline> B(1);'' = Some d
          \<and> values d = [[JStr ''B'', JStr ''1'']]
          \<and> list_all (paren_entry ''\<newline> A,\<newline> B(1)'') (values d))
   \<and> \<not> one_line_paren_group ''\<newline> OK, NG''
   \<and> (\<exists>d. parseEnumDeclaration '' enum E {\<newline> OK, NG;'' = Some d
          \<and> values d = [[JStr ''OK'', JNum 0], [JStr ''NG'', JNum 1]])\<close>
proof -
  from whole_enum_found_mixed obtain wm
    where h1: \<open>exec re_whole_enum '' enum E {\<newline> A,\<newline> B(1);'' '' enum E {\<newline> A,\<newline> B(1);'' = Some wm\<close>
      and c2: \<open>capture wm 2 = JStr ''\<newline> A,\<newline> B(1)''\<close>
    by blast
  have t: \<open>regex_test re_test_enum_with_paren ''\<newline> A,\<newline> B(1)''\<close>
    by (simp add: re_defs ev_defs)
  note a = mode_of_declaration[OF h1, unfolded c2 ToString.simps]
  from a t have hp: \<open>one_line_paren_group ''\<newline> A,\<newline> B(1)''\<close> by blast
  from a hp obtain d where d: \<open>parseEnumDeclaration '' enum E {\<newline> A,\<newline> B(1);'' = Some d\<close>
    and pe: \<open>list_all (paren_entry ''\<newline> A,\<newline> B(1)'') (values d)\<close>
    by auto
  from d have v: "values d = [[JStr ''B'', JStr ''1'']]" unfolding parse_mixed by auto
  from whole_enum_found_two obtain wm'
    where h1': \<open>exec re_whole_enum '' enum E {\<newline> OK, NG;'' '' enum E {\<newline> OK, NG;'' = Some wm'\<close>
      and c2': \<open>capture wm' 2 = JStr ''\<newline> OK, NG''\<close>
    by blast
  have t': \<open>\<not> regex_test re_test_enum_with_paren ''\<newline> OK, NG''\<close>
    by (simp add: re_defs ev_defs)
  note b = mode_of_declaration[OF h1', unfolded c2' ToString.simps]
  from b t' have hp': \<open>\<not> one_line_paren_group ''\<newline> OK, NG''\<close> by blast
  have ids: \<open>identifiers ''\<newline> OK, NG'' = [''OK'', ''NG'']\<close>
    by (simp add: key_start_def key_char_def class_has_def)
  from b hp' obtain d' where d': \<open>parseEnumDeclaration '' enum E {\<newline> OK, NG;'' = Some d'\<close>
    and v': \<open>values d' = map (\<lambda>i. [JStr (identifiers ''\<newline> OK, NG'' ! i), JNum i])
                                   [0..<length (identifiers ''\<newline> OK, NG'')]\<close>
    by auto
  from v' have "values d' = [[JStr ''OK'', JNum 0], [JStr ''NG'', JNum 1]]"
    unfolding ids by (simp add: upt_rec)
  with hp d v pe hp' d' show ?thesis by blast
qed

section \<open>The claims\<close>

subsection \<open>C1: the Status declaration, end to end\<close>

text \<open>
  C1, as stated, fails. The value section is the second group of \<^verbatim>\<open>re_whole_enum\<close>: the
  lines after the line of \<^verbatim>\<open>enum Status\<close>, up to the first \<^verbatim>\<open>;\<close>. For the declaration
  written on one line, \<^verbatim>\<open>enum Status { OK(0, "Green"), NG(1, "Red"); }\<close>, the first
  \<^verbatim>\<open>;\<close> is on the line of \<^verbatim>\<open>enum\<close>, the value section is empty, the declaration has
  no value and the filter of the push handler drops it: nothing is loaded. With nothing
  before \<^verbatim>\<open>enum\<close> the pattern, which starts with a space, does not even match.
\<close>

theorem C1_one_line_counterexample:
  \<open>loads [''public enum Status { OK(0, "Green"), NG(1, "Red"); }''] = []
   \<and> loads [''enum Status { OK(0, "Green"), NG(1, "Red"); }''] = []\<close>
  by (simp add: loads_def remove_not_matched_def List.map_filter_def parse_single_line
      parse_declaration_alone)

text \<open>
  C1, amended: for the source text in which the same declaration has its entries on the
  lines after the line of \<^verbatim>\<open>enum Status {\<close>, and a space before \<^verbatim>\<open>enum\<close>, the
  parse-guess-project pipeline produces the table_id \<^verbatim>\<open>status\<close>, the schema key: string,
  code: integer, label: string, and the rows of OK and NG.
\<close>

theorem C1_entries_on_following_lines:
  \<open>loads [''public enum Status {\<newline>  OK(0, "Green"),\<newline>  NG(1, "Red");\<newline>}''] =
    [(''status'',
      [[(''name'', JStr ''key''), (''type'', JStr ''string'')],
       [(''name'', JStr ''code''), (''type'', JStr ''integer'')],
       [(''name'', JStr ''label''), (''type'', JStr ''string'')]],
      [[(''key'', JStr ''OK''), (''code'', JStr ''0''), (''label'', JStr ''Green'')],
       [(''key'', JStr ''NG''), (''code'', JStr ''1''), (''label'', JStr ''Red'')]])]\<close>
  by (simp add: load_defs parse_multi_line guess_status at_index_def upt_rec)

subsection \<open>C2: a fourth or later literal\<close>

text \<open>
  C2 says that of four or more literals only the first three are kept. The pattern
  repeats \<^verbatim>\<open>re_label\<close>, with its capture groups, for the fourth and later literals, so
  the last of them is captured too: the tuple of \<^verbatim>\<open>K(1, 2, 3, 4, 5)\<close> has the key, the
  first three literals and the fifth, and the tuple of \<^verbatim>\<open>K(1, 2, 3, 4)\<close> has all four.
  The comment in the source says that more than two labels are ignored.
\<close>

theorem C2_last_literal_is_kept:
  \<open>parseEnumDeclaration '' enum E {\<newline> K(1, 2, 3, 4, 5);''
     = Some \<lparr>name = JStr ''E'',
              values = [[JStr ''K'', JStr ''1'', JStr ''2'', JStr ''3'', JStr ''5'']]\<rparr>
   \<and> parseEnumDeclaration '' enum E {\<newline> K(1, 2, 3, 4);''
     = Some \<lparr>name = JStr ''E'',
              values = [[JStr ''K'', JStr ''1'', JStr ''2'', JStr ''3'', JStr ''4'']]\<rparr>\<close>
  by (simp add: re_defs ev_defs)

subsection \<open>C3: rows that lack a position\<close>

text \<open>
  C3, as stated, fails: \<^verbatim>\<open>transpose\<close> reads \<^verbatim>\<open>r[c]\<close> of every row, and a row without
  position \<^verbatim>\<open>c\<close> gives \<^verbatim>\<open>undefined\<close>, as the comment on \<^verbatim>\<open>transpose\<close> says. For the
  input of the claim the second column is \<^verbatim>\<open>[undefined, "2"]\<close>, and it is a string
  column, not an integer column.
\<close>

theorem C3_ragged_counterexample: "guessSchema [[JStr ''1''], [JStr ''1'', JStr ''2'']] = [''integer'', ''string'']
  \<and> guessSchema [[JStr ''1''], [JStr ''1'', JStr ''2'']] \<noteq> [''integer'', ''integer'']"
  by (simp add: guess_defs re_defs ev_defs)

text \<open>
  C3, amended: for every ragged input to the Type Guesser, a row shorter than \<^verbatim>\<open>c + 1\<close>
  contributes the entry \<^verbatim>\<open>undefined\<close> to column \<^verbatim>\<open>c\<close>, which fails the all-boolean and the
  all-integer check: every column that some row lacks is classified string.
\<close>

theorem C3_short_row_makes_string:
  assumes "c < length (guessSchema rows)" and "r \<in> set rows" and "length r \<le> c"
  shows "guessSchema rows ! c = ''string''"
proof -
  from assms(2,3) have u: "JUndefined \<in> set (map (\<lambda>r. at_index r c) rows)"
    by (force simp: at_index_def)
  have "\<not> isBoolean JUndefined" by (simp add: isBoolean_def)
  with u have b: "\<not> list_all (\<lambda>y. isBoolean y) (map (\<lambda>r. at_index r c) rows)"
    unfolding list_all_iff by blast
  have "\<not> isNumber (parseIntIfParsable JUndefined)" by (simp add: isNumber_parseIntIfParsable)
  with u have n: "\<not> list_all (\<lambda>y. isNumber (parseIntIfParsable y)) (map (\<lambda>r. at_index r c) rows)"
    unfolding list_all_iff by blast
  from b n show ?thesis unfolding guessSchema_nth[OF assms(1)] by simp
qed

theorem C3_short_row_witness:
  "1 < length (guessSchema [[JStr ''true''], [JStr ''false'', JStr ''7'']])
   \<and> [JStr ''true''] \<in> set [[JStr ''true''], [JStr ''false'', JStr ''7'']]
   \<and> length [JStr ''true''] \<le> 1
   \<and> guessSchema [[JStr ''true''], [JStr ''false'', JStr ''7'']] ! 1 = ''string''"
proof -
  have 1: "1 < length (guessSchema [[JStr ''true''], [JStr ''false'', JStr ''7'']])"
    by (simp add: length_guessSchema)
  have 2: "[JStr ''true''] \<in> set [[JStr ''true''], [JStr ''false'', JStr ''7'']]" by simp
  have 3: "length [JStr ''true''] \<le> 1" by simp
  from C3_short_row_makes_string[OF 1 2 3] 1 2 3 show ?thesis by blast
qed

subsection \<open>C4: the row of a tuple\<close>

text \<open>
  C4 says that the row has a column wherever the tuple has a value. The row is filled
  under \<^verbatim>\<open>if (values[i])\<close>, and the ordinal of the first entry of a declaration without
  parentheses is the number 0, which is falsy: its row has no \<^verbatim>\<open>code\<close>. For a tuple of
  truthy values the row is as the claim says (\<^verbatim>\<open>rows_of_truthy_tuple\<close>), and the push
  handler of \<^verbatim>\<open>src/index.js\<close>, which sets the columns without the test, keeps the
  ordinal 0 (and gives a shorter tuple an explicit \<^verbatim>\<open>undefined\<close>,
  \<^verbatim>\<open>github_rows_short_tuple\<close>).
\<close>

theorem C4_ordinal_zero_has_no_code:
  \<open>parseEnumDeclaration '' enum E {\<newline> OK, NG;''
     = Some \<lparr>name = JStr ''E'', values = [[JStr ''OK'', JNum 0], [JStr ''NG'', JNum 1]]\<rparr>
   \<and> enumToBigQueryRows [[JStr ''OK'', JNum 0], [JStr ''NG'', JNum 1]] columns
     = [[(''key'', JStr ''OK'')], [(''key'', JStr ''NG''), (''code'', JNum 1)]]
   \<and> github_rows [[JStr ''OK'', JNum 0], [JStr ''NG'', JNum 1]]
     = [[(''key'', JStr ''OK''), (''code'', JNum 0)], [(''key'', JStr ''NG''), (''code'', JNum 1)]]\<close>
  unfolding parse_bare_two github_rows_def guess_bare_two
  by (simp add: load_defs at_index_def upt_rec)

subsection \<open>C5: boolean, then integer, then string\<close>

text \<open>
  C5, as stated, fails on ragged input. In \<^verbatim>\<open>[["true"], ["true", "false"]]\<close> the only
  contributing value of the second column is \<^verbatim>\<open>"false"\<close>, literally a boolean, and the
  column is a string column; in \<^verbatim>\<open>[["7"], ["8", "9"]]\<close> the only contributing value of
  the second column is \<^verbatim>\<open>"9"\<close>, all digits, and the column is a string column.
  \<^verbatim>\<open>transpose\<close> gives the column the entry \<^verbatim>\<open>undefined\<close> for the short row, as its
  comment says, and \<^verbatim>\<open>undefined\<close> passes neither check.
\<close>

theorem C5_ragged_column_counterexample:
  "contributing [[JStr ''true''], [JStr ''true'', JStr ''false'']] 1 = [JStr ''false'']
   \<and> guessSchema [[JStr ''true''], [JStr ''true'', JStr ''false'']] = [''boolean'', ''string'']
   \<and> guessSchema [[JStr ''true''], [JStr ''true'', JStr ''false'']] ! 1 \<noteq> ''boolean''
   \<and> contributing [[JStr ''7''], [JStr ''8'', JStr ''9'']] 1 = [JStr ''9'']
   \<and> guessSchema [[JStr ''7''], [JStr ''8'', JStr ''9'']] = [''integer'', ''string'']
   \<and> guessSchema [[JStr ''7''], [JStr ''8'', JStr ''9'']] ! 1 \<noteq> ''integer''"
  by (simp add: contributing_def guess_defs re_defs ev_defs)

text \<open>
  C5, amended: the schema has one type for every position of the longest row. For every
  column \<^verbatim>\<open>c\<close>: if some row has no entry at position \<^verbatim>\<open>c\<close>, the type is string. Otherwise
  every row contributes its value \<^verbatim>\<open>r[c]\<close>, and the type is boolean iff every contributing
  value is literally \<^verbatim>\<open>"true"\<close> or \<^verbatim>\<open>"false"\<close>; otherwise integer iff every contributing
  value is a non-empty string of the digits 0 to 9, with no sign and no decimal point (or
  is a number already, as the ordinals of bare mode are); otherwise string. The boolean
  check comes first, and one value with a decimal point or another character that is no
  digit makes the column a string column.
\<close>

theorem C5_column_type:
  "length (guessSchema rows) = foldr max (map length rows) 0
   \<and> (\<forall>c < length (guessSchema rows). guessSchema rows ! c =
        (if \<exists>r\<in>set rows. length r \<le> c then ''string''
         else if \<forall>v\<in>set (contributing rows c). v = JStr ''true'' \<or> v = JStr ''false'' then ''boolean''
         else if \<forall>v\<in>set (contributing rows c).
                   (\<exists>s. v = JStr s \<and> s \<noteq> [] \<and> set s \<subseteq> set ''0123456789'') \<or> (\<exists>n. v = JNum n)
         then ''integer''
         else ''string''))"
proof (intro conjI allI impI)
  show "length (guessSchema rows) = foldr max (map length rows) 0" by (rule length_guessSchema)
next
  fix c assume c: "c < length (guessSchema rows)"
  let ?col = "map (\<lambda>r. at_index r c) rows"
  have b: "list_all (\<lambda>y. isBoolean y) xs \<longleftrightarrow> (\<forall>v\<in>set xs. v = JStr ''true'' \<or> v = JStr ''false'')" for xs
    by (simp add: list_all_iff isBoolean_def)
  have n: "list_all (\<lambda>y. isNumber (parseIntIfParsable y)) xs
     \<longleftrightarrow> (\<forall>v\<in>set xs. (\<exists>s. v = JStr s \<and> s \<noteq> [] \<and> set s \<subseteq> set ''0123456789'') \<or> (\<exists>n. v = JNum n))" for xs
    unfolding list_all_iff isNumber_parseIntIfParsable by auto
  show "guessSchema rows ! c =
        (if \<exists>r\<in>set rows. length r \<le> c then ''string''
         else if \<forall>v\<in>set (contributing rows c). v = JStr ''true'' \<or> v = JStr ''false'' then ''boolean''
         else if \<forall>v\<in>set (contributing rows c).
                   (\<exists>s. v = JStr s \<and> s \<noteq> [] \<and> set s \<subseteq> set ''0123456789'') \<or> (\<exists>n. v = JNum n)
         then ''integer''
         else ''string'')"
  proof (cases "\<exists>r\<in>set rows. length r \<le> c")
    case True
    then have u: "JUndefined \<in> set ?col" by (force simp: at_index_def)
    from u have "\<not> (\<forall>v\<in>set ?col. v = JStr ''true'' \<or> v = JStr ''false'')" by blast
    moreover from u have "\<not> (\<forall>v\<in>set ?col. (\<exists>s. v = JStr s \<and> s \<noteq> [] \<and> set s \<subseteq> set ''0123456789'') \<or> (\<exists>n. v = JNum n))"
      by blast
    ultimately show ?thesis unfolding guessSchema_nth[OF c] b n if_P[OF True] by simp
  next
    case False
    then have "\<forall>r\<in>set rows. c < length r" by auto
    then have e: "?col = contributing rows c" by (rule at_index_contributing)
    show ?thesis unfolding guessSchema_nth[OF c] e b n if_not_P[OF False] ..
  qed
qed

text \<open>
  The three examples of C5 and the ragged example of the documentation of
  \<^verbatim>\<open>guessSchema\<close>, each through the theorem.
\<close>

theorem C5_examples_witness:
  "guessSchema [[JStr ''true''], [JStr ''false'']] = [''boolean'']
   \<and> guessSchema [[JStr ''123''], [JStr ''123'']] = [''integer'']
   \<and> guessSchema [[JStr ''123''], [JStr ''not_number'']] = [''string'']
   \<and> guessSchema [[JStr ''1st column''], [JStr ''1st'', JStr ''2nd'']] = [''string'', ''string'']"
proof -
  have e1: "xs = [xs ! 0]" if "length xs = 1" for xs :: "string list"
    using that by (cases xs) auto
  have e2: "xs = [xs ! 0, xs ! 1]" if "length xs = 2" for xs :: "string list"
    using that by (cases xs; cases "tl xs") auto
  have "guessSchema [[JStr ''true''], [JStr ''false'']] = [''boolean'']"
    using C5_column_type[of "[[JStr ''true''], [JStr ''false'']]"]
      e1[of "guessSchema [[JStr ''true''], [JStr ''false'']]"]
    by (simp add: contributing_def)
  moreover have "guessSchema [[JStr ''123''], [JStr ''123'']] = [''integer'']"
    using C5_column_type[of "[[JStr ''123''], [JStr ''123'']]"]
      e1[of "guessSchema [[JStr ''123''], [JStr ''123'']]"]
    by (simp add: contributing_def)
  moreover have "guessSchema [[JStr ''123''], [JStr ''not_number'']] = [''string'']"
    using C5_column_type[of "[[JStr ''123''], [JStr ''not_number'']]"]
      e1[of "guessSchema [[JStr ''123''], [JStr ''not_number'']]"]
    by (simp add: contributing_def)
  moreover have "guessSchema [[JStr ''1st column''], [JStr ''1st'', JStr ''2nd'']] = [''string'', ''string'']"
    using C5_column_type[of "[[JStr ''1st column''], [JStr ''1st'', JStr ''2nd'']]"]
      e2[of "guessSchema [[JStr ''1st column''], [JStr ''1st'', JStr ''2nd'']]"]
    by (simp add: contributing_def)
  ultimately show ?thesis by blast
qed

subsection \<open>C6: the ordinals of a declaration without parentheses\<close>

text \<open>
  C6: for every declaration in bare mode, whose value section has N identifier tokens, the
  parser returns N tuples, the i-th being the i-th identifier with the ordinal i: the
  ordinals are 0, 1, ..., N - 1 in the order of the declaration, one more at every match,
  whatever whitespace and newlines (or other characters that are no capital letter, digit
  or underscore) lie between the entries.
\<close>

theorem C6_bare_ordinals:
  assumes "exec re_whole_enum source_code source_code = Some whole_matched"
    and "\<not> regex_test re_test_enum_with_paren (ToString (capture whole_matched 2))"
  shows "\<exists>d. parseEnumDeclaration source_code = Some d
           \<and> length (values d) = length (identifiers (ToString (capture whole_matched 2)))
           \<and> (\<forall>i < length (identifiers (ToString (capture whole_matched 2))).
                 values d ! i = [JStr (identifiers (ToString (capture whole_matched 2)) ! i), JNum i])"
  using assms by (simp add: parseEnumDeclaration_def parse_loop_bare Let_def)

text \<open>Three entries on two lines, with a blank line and uneven indentation between them.\<close>

theorem C6_formatting_witness:
  \<open>\<exists>d. parseEnumDeclaration '' enum E {\<newline> A, B,\<newline>\<newline>   C;'' = Some d
     \<and> length (values d) = 3
     \<and> values d ! 0 = [JStr ''A'', JNum 0]
     \<and> values d ! 1 = [JStr ''B'', JNum 1]
     \<and> values d ! 2 = [JStr ''C'', JNum 2]\<close>
proof -
  from whole_enum_found_E obtain wm
    where h1: \<open>exec re_whole_enum '' enum E {\<newline> A, B,\<newline>\<newline>   C;'' '' enum E {\<newline> A, B,\<newline>\<newline>   C;'' = Some wm\<close>
      and c2: \<open>capture wm 2 = JStr ''\<newline> A, B,\<newline>\<newline>   C''\<close>
    by blast
  have h2: "\<not> regex_test re_test_enum_with_paren (ToString (capture wm 2))"
    unfolding c2 by (simp add: re_defs ev_defs)
  have ids: \<open>identifiers (ToString (capture wm 2)) = [''A'', ''B'', ''C'']\<close>
    unfolding c2 by (simp add: key_start_def key_char_def class_has_def)
  from C6_bare_ordinals[OF h1 h2] obtain d
    where p: \<open>parseEnumDeclaration '' enum E {\<newline> A, B,\<newline>\<newline>   C;'' = Some d\<close>
      and n: "length (values d) = length [''A'', ''B'', ''C'']"
      and v: "\<forall>i < length [''A'', ''B'', ''C'']. values d ! i = [JStr ([''A'', ''B'', ''C''] ! i), JNum i]"
    unfolding ids by blast
  from v[rule_format, of 0] v[rule_format, of 1] v[rule_format, of 2] n p
  show ?thesis by simp
qed

subsection \<open>C7: one mode for the whole declaration\<close>

text \<open>
  C7: the mode is decided by one test over the whole value section, and an identifier
  followed by a parenthesized group selects paren mode. In the declaration below the value
  section has the identifier \<^verbatim>\<open>A\<close> followed by a parenthesized group that lies on two
  lines. The pattern of the loop, \<^verbatim>\<open>re_enum_with_paren\<close>, matches that entry and gives the
  tuple \<^verbatim>\<open>["A", "1"]\<close>; the test, \<^verbatim>\<open>re_test_enum_with_paren\<close>, whose \<^verbatim>\<open>.*\<close> does not
  pass a line end, fails on it, although its comment says that it is for testing whether
  the enum has parentheses. So the parser reads the declaration in bare mode and returns
  \<^verbatim>\<open>["A", 0]\<close>, where the same entry with its group on one line gives \<^verbatim>\<open>["A", "1"]\<close>.
\<close>

theorem C7_group_over_two_lines_is_bare:
  \<open>has_ident_with_group ''\<newline> A(\<newline> 1)''
   \<and> \<not> regex_test re_test_enum_with_paren ''\<newline> A(\<newline> 1)''
   \<and> map_option (\<lambda>mt. filter truthy (slice1 re_enum_with_paren mt))
        (exec re_enum_with_paren ''\<newline> A(\<newline> 1)'' ''\<newline> A(\<newline> 1)'') = Some [JStr ''A'', JStr ''1'']
   \<and> parseEnumDeclaration '' enum E {\<newline> A(\<newline> 1);''
       = Some \<lparr>name = JStr ''E'', values = [[JStr ''A'', JNum 0]]\<rparr>
   \<and> parseEnumDeclaration '' enum E {\<newline> A( 1);''
       = Some \<lparr>name = JStr ''E'', values = [[JStr ''A'', JStr ''1'']]\<rparr>\<close>
proof -
  have \<open>''\<newline> A(\<newline> 1)'' = ''\<newline> '' @ ''A'' @ ''('' @ ''\<newline> 1'' @ '')'' @ []\<close> by simp
  moreover have "is_key ''A''" by (simp add: is_key_def key_start_def class_has_def)
  ultimately have 0: \<open>has_ident_with_group ''\<newline> A(\<newline> 1)''\<close>
    unfolding has_ident_with_group_def by blast
  have 1: \<open>\<not> regex_test re_test_enum_with_paren ''\<newline> A(\<newline> 1)''\<close>
    by (simp add: re_defs ev_defs)
  have 2: \<open>map_option (\<lambda>mt. filter truthy (slice1 re_enum_with_paren mt))
        (exec re_enum_with_paren ''\<newline> A(\<newline> 1)'' ''\<newline> A(\<newline> 1)'') = Some [JStr ''A'', JStr ''1'']\<close>
    by (simp add: re_defs ev_defs)
  have 3: \<open>parseEnumDeclaration '' enum E {\<newline> A(\<newline> 1);''
       = Some \<lparr>name = JStr ''E'', values = [[JStr ''A'', JNum 0]]\<rparr>\<close>
    by (simp add: re_defs ev_defs)
  have 4: \<open>parseEnumDeclaration '' enum E {\<newline> A( 1);''
       = Some \<lparr>name = JStr ''E'', values = [[JStr ''A'', JStr ''1'']]\<rparr>\<close>
    by (simp add: re_defs ev_defs)
  from 0 1 2 3 4 show ?thesis by blast
qed

subsection \<open>C8: texts without a declaration\<close>

text \<open>
  C8: for every source text that contains no \<^verbatim>\<open>enum\<close> keyword,
  \<^verbatim>\<open>parseEnumDeclaration\<close> returns null; and it returns null when the keyword is there but
  no \<^verbatim>\<open>;\<close> follows it to end the value section.
\<close>

theorem C8_no_enum_or_no_semicolon_is_null:
  "(\<not> sublist ''enum'' src \<longrightarrow> parseEnumDeclaration src = None)
   \<and> ((\<forall>pre post. src = pre @ '' enum '' @ post \<longrightarrow> CHR '';'' \<notin> set post)
        \<longrightarrow> parseEnumDeclaration src = None)"
proof (intro conjI impI)
  assume n: "\<not> sublist ''enum'' src"
  show "parseEnumDeclaration src = None"
  proof (rule ccontr)
    assume "parseEnumDeclaration src \<noteq> None"
    then obtain d where "parseEnumDeclaration src = Some d" by auto
    from parse_Some_shape[OF this] obtain pre post where "src = pre @ '' enum '' @ post" by blast
    then have "src = (pre @ '' '') @ ''enum'' @ ('' '' @ post)" by simp
    then have "sublist ''enum'' src" unfolding sublist_def by blast
    with n show False by simp
  qed
next
  assume n: "\<forall>pre post. src = pre @ '' enum '' @ post \<longrightarrow> CHR '';'' \<notin> set post"
  show "parseEnumDeclaration src = None"
  proof (rule ccontr)
    assume "parseEnumDeclaration src \<noteq> None"
    then obtain d where "parseEnumDeclaration src = Some d" by auto
    from parse_Some_shape[OF this] n show False by blast
  qed
qed

text \<open>A class without the keyword, and a declaration that no \<^verbatim>\<open>;\<close> ends.\<close>

theorem C8_null_witness:
  \<open>\<not> sublist ''enum'' ''public class Status { int x; }''
   \<and> parseEnumDeclaration ''public class Status { int x; }'' = None
   \<and> sublist ''enum'' ''public enum Status {\<newline>  OK, NG\<newline>}''
   \<and> CHR '';'' \<notin> set ''public enum Status {\<newline>  OK, NG\<newline>}''
   \<and> parseEnumDeclaration ''public enum Status {\<newline>  OK, NG\<newline>}'' = None\<close>
proof -
  have 1: \<open>\<not> sublist ''enum'' ''public class Status { int x; }''\<close>
    by (simp add: sublist_code)
  have 2: \<open>CHR '';'' \<notin> set ''public enum Status {\<newline>  OK, NG\<newline>}''\<close> by simp
  have 3: \<open>sublist ''enum'' ''public enum Status {\<newline>  OK, NG\<newline>}''\<close>
    by (simp add: sublist_code)
  have 4: \<open>\<forall>pre post. ''public enum Status {\<newline>  OK, NG\<newline>}'' = pre @ '' enum '' @ post \<longrightarrow> CHR '';'' \<notin> set post\<close>
  proof (intro allI impI)
    fix pre post :: string
    assume e: \<open>''public enum Status {\<newline>  OK, NG\<newline>}'' = pre @ '' enum '' @ post\<close>
    have "set post \<subseteq> set (pre @ '' enum '' @ post)" by auto
    with 2 show "CHR '';'' \<notin> set post" unfolding e[symmetric] by blast
  qed
  from C8_no_enum_or_no_semicolon_is_null[of "''public class Status { int x; }''"] 1
  have a: "parseEnumDeclaration ''public class Status { int x; }'' = None" by blast
  from C8_no_enum_or_no_semicolon_is_null[of \<open>''public enum Status {\<newline>  OK, NG\<newline>}''\<close>] 4
  have b: \<open>parseEnumDeclaration ''public enum Status {\<newline>  OK, NG\<newline>}'' = None\<close> by blast
  from 1 2 3 a b show ?thesis by blast
qed

subsection \<open>C9: a declaration without values\<close>

text \<open>
  C9: for every source text where the declaration block is found but the value section
  yields no match, \<^verbatim>\<open>parseEnumDeclaration\<close> returns the declaration with the values
  \<^verbatim>\<open>[]\<close>, not null; and the filter of the push handler drops it: the loads are those of
  the other files, and no declaration that passes the filter has an empty values sequence.
\<close>

theorem C9_no_value_is_kept_then_filtered:
  assumes "exec re_whole_enum source_code source_code = Some whole_matched"
    and "exec (re_enum (\<not> regex_test re_test_enum_with_paren (ToString (capture whole_matched 2))))
           (ToString (capture whole_matched 2)) (ToString (capture whole_matched 2)) = None"
  shows "parseEnumDeclaration source_code = Some \<lparr>name = capture whole_matched 1, values = []\<rparr>
     \<and> (\<exists>enum_name. capture whole_matched 1 = JStr enum_name)
     \<and> (\<forall>earlier later. loads (earlier @ source_code # later) = loads (earlier @ later))
     \<and> (\<forall>contents. \<forall>d \<in> set (remove_not_matched (map parseEnumDeclaration contents)). values d \<noteq> [])"
proof (intro conjI allI)
  show p: "parseEnumDeclaration source_code = Some \<lparr>name = capture whole_matched 1, values = []\<rparr>"
    using assms by (simp add: parseEnumDeclaration_def Let_def parse_loop.simps)
  from whole_enum_captures[OF assms(1)]
  show "\<exists>enum_name. capture whole_matched 1 = JStr enum_name" by blast
  fix earlier later
  have "loads [source_code] = []" by (rule loads_no_values[OF p]) simp
  then show "loads (earlier @ source_code # later) = loads (earlier @ later)"
    using loads_append[of earlier "[source_code] @ later"] loads_append[of "[source_code]" later]
      loads_append[of earlier later] by simp
next
  fix contents
  show "\<forall>d \<in> set (remove_not_matched (map parseEnumDeclaration contents)). values d \<noteq> []"
    by (auto simp: remove_not_matched_def List.map_filter_def split: option.splits if_splits)
qed

text \<open>A declaration whose value section holds only spaces.\<close>

theorem C9_empty_section_witness:
  \<open>parseEnumDeclaration ''public enum Empty {\<newline>    ;\<newline>}'' = Some \<lparr>name = JStr ''Empty'', values = []\<rparr>
   \<and> loads [''public enum Empty {\<newline>    ;\<newline>}''] = []\<close>
proof -
  from whole_enum_found_empty obtain wm
    where h1: \<open>exec re_whole_enum ''public enum Empty {\<newline>    ;\<newline>}'' ''public enum Empty {\<newline>    ;\<newline>}'' = Some wm\<close>
      and c1: \<open>capture wm 1 = JStr ''Empty''\<close>
      and c2: \<open>capture wm 2 = JStr ''\<newline>    ''\<close>
    by blast
  have h2: "exec (re_enum (\<not> regex_test re_test_enum_with_paren (ToString (capture wm 2))))
           (ToString (capture wm 2)) (ToString (capture wm 2)) = None"
    unfolding c2 by (simp add: re_defs ev_defs)
  from C9_no_value_is_kept_then_filtered[OF h1 h2] have p: \<open>parseEnumDeclaration ''public enum Empty {\<newline>    ;\<newline>}'' = Some \<lparr>name = capture wm 1, values = []\<rparr>\<close>
    and l: \<open>\<forall>earlier later. loads (earlier @ ''public enum Empty {\<newline>    ;\<newline>}'' # later) = loads (earlier @ later)\<close>
    by blast+
  from l[rule_format, of "[]" "[]"] have \<open>loads [''public enum Empty {\<newline>    ;\<newline>}''] = loads []\<close> by simp
  then have \<open>loads [''public enum Empty {\<newline>    ;\<newline>}''] = []\<close> by (simp add: loads_def remove_not_matched_def List.map_filter_def)
  with p c1 show ?thesis by simp
qed

subsection \<open>C10: the spaces around the keyword\<close>

text \<open>
  C10: \<^verbatim>\<open>re_whole_enum\<close> starts with a space, \<^verbatim>\<open>enum\<close> and a space. For every source
  text without the keyword between two spaces (the keyword at the very start, or a newline
  or a tab on either side of it) \<^verbatim>\<open>parseEnumDeclaration\<close> returns null, whatever declaration
  the text holds.
\<close>

theorem C10_enum_needs_spaces:
  assumes "\<not> sublist '' enum '' src"
  shows "parseEnumDeclaration src = None"
proof (rule ccontr)
  assume "parseEnumDeclaration src \<noteq> None"
  then obtain d where "parseEnumDeclaration src = Some d" by auto
  from parse_Some_shape[OF this] have "sublist '' enum '' src" unfolding sublist_def by blast
  with assms show False by simp
qed

text \<open>
  The keyword at the start of the text, after a newline, and before a newline: each text
  holds a declaration, and each parses to null.
\<close>

theorem C10_other_whitespace_witness:
  \<open>\<not> sublist '' enum '' ''enum Status {\<newline>  OK, NG;\<newline>}''
   \<and> parseEnumDeclaration ''enum Status {\<newline>  OK, NG;\<newline>}'' = None
   \<and> \<not> sublist '' enum '' ''public\<newline>enum Status {\<newline>  OK, NG;\<newline>}''
   \<and> parseEnumDeclaration ''public\<newline>enum Status {\<newline>  OK, NG;\<newline>}'' = None
   \<and> \<not> sublist '' enum '' ''public enum\<newline>Status {\<newline>  OK, NG;\<newline>}''
   \<and> parseEnumDeclaration ''public enum\<newline>Status {\<newline>  OK, NG;\<newline>}'' = None\<close>
proof -
  have 1: \<open>\<not> sublist '' enum '' ''enum Status {\<newline>  OK, NG;\<newline>}''\<close>
    by (simp add: sublist_code)
  have 2: \<open>\<not> sublist '' enum '' ''public\<newline>enum Status {\<newline>  OK, NG;\<newline>}''\<close>
    by (simp add: sublist_code)
  have 3: \<open>\<not> sublist '' enum '' ''public enum\<newline>Status {\<newline>  OK, NG;\<newline>}''\<close>
    by (simp add: sublist_code)
  from C10_enum_needs_spaces[OF 1] C10_enum_needs_spaces[OF 2] C10_enum_needs_spaces[OF 3] 1 2 3 show ?thesis by blast
qed

end
